theory Spec2Isabelle
  imports Main "HOL-Library.Char_ord" "HOL-Library.List_Lexorder" "HOL-Library.Product_Lexorder"
begin

section \<open>Python values used by both inspectors\<close>

text \<open>
  A Python \<open>str\<close> is modelled as a \<open>string\<close> (a list of characters). The exceptions
  the modelled code can meet are values: indexing a string out of range raises
  \<open>IndexError\<close>, and \<open>Path.resolve\<close> raises \<open>RuntimeError\<close> on a symbolic-link loop.
\<close>

datatype error = IndexError | RuntimeError


definition char_at :: "string \<Rightarrow> nat \<Rightarrow> error + char" where
  "char_at code k = (if k < length code then Inr (code ! k) else Inl IndexError)"

text \<open>\<open>code[i + 1] if i + 1 < n else ""\<close>: the empty string is \<open>None\<close>.\<close>

definition char_after :: "string \<Rightarrow> nat \<Rightarrow> char option" where
  "char_after code k = (if k + 1 < length code then Some (code ! (k + 1)) else None)"

abbreviation newline_ch :: char where "newline_ch \<equiv> CHR 0x0A"
abbreviation space_ch :: char where "space_ch \<equiv> CHR 0x20"
abbreviation dquote_ch :: char where "dquote_ch \<equiv> CHR 0x22"
abbreviation squote_ch :: char where "squote_ch \<equiv> CHR 0x27"
abbreviation backslash_ch :: char where "backslash_ch \<equiv> CHR 0x5C"

text \<open>\<open>"\n" if ch == "\n" else " "\<close>\<close>

definition blank :: "char \<Rightarrow> char" where
  "blank ch = (if ch = newline_ch then newline_ch else space_ch)"

section \<open>The C\# comment and string stripper (dotnet\_app\_inspector.py)\<close>

text \<open>
  The local variables of \<open>strip_csharp_comments_and_strings\<close>: the index \<open>i\<close>, the
  list \<open>result\<close> (joined at the end) and the five flags.
\<close>

record cs_state =
  cs_i :: nat
  cs_result :: string
  cs_in_sl_comment :: bool
  cs_in_ml_comment :: bool
  cs_in_str :: bool
  cs_in_verbatim_str :: bool
  cs_in_char :: bool

text \<open>One iteration of the \<open>while i < n\<close> loop, branch by branch in the source's order.\<close>

definition cs_body :: "string \<Rightarrow> cs_state \<Rightarrow> error + cs_state" where
  "cs_body code s =
    (case char_at code (cs_i s) of
       Inl e \<Rightarrow> Inl e
     | Inr ch \<Rightarrow>
        (let ch2 = char_after code (cs_i s) in
         if cs_in_sl_comment s then
           Inr (s\<lparr>cs_i := cs_i s + 1,
                  cs_result := cs_result s @ [blank ch],
                  cs_in_sl_comment := (if ch = newline_ch then False else cs_in_sl_comment s)\<rparr>)
         else if cs_in_ml_comment s then
           (if ch = CHR ''*'' \<and> ch2 = Some CHR ''/'' then
              Inr (s\<lparr>cs_i := cs_i s + 2,
                     cs_result := cs_result s @ [space_ch, space_ch],
                     cs_in_ml_comment := False\<rparr>)
            else
              Inr (s\<lparr>cs_i := cs_i s + 1, cs_result := cs_result s @ [blank ch]\<rparr>))
         else if cs_in_verbatim_str s then
           (if ch = dquote_ch \<and> ch2 = Some dquote_ch then
              Inr (s\<lparr>cs_i := cs_i s + 2, cs_result := cs_result s @ [space_ch, space_ch]\<rparr>)
            else if ch = dquote_ch then
              Inr (s\<lparr>cs_i := cs_i s + 1,
                     cs_result := cs_result s @ [space_ch],
                     cs_in_verbatim_str := False\<rparr>)
            else
              Inr (s\<lparr>cs_i := cs_i s + 1, cs_result := cs_result s @ [blank ch]\<rparr>))
         else if cs_in_str s then
           (if ch = backslash_ch \<and> cs_i s + 1 < length code then
              Inr (s\<lparr>cs_i := cs_i s + 2, cs_result := cs_result s @ [space_ch, space_ch]\<rparr>)
            else if ch = dquote_ch then
              Inr (s\<lparr>cs_i := cs_i s + 1,
                     cs_result := cs_result s @ [space_ch],
                     cs_in_str := False\<rparr>)
            else
              Inr (s\<lparr>cs_i := cs_i s + 1, cs_result := cs_result s @ [space_ch]\<rparr>))
         else if cs_in_char s then
           (if ch = backslash_ch \<and> cs_i s + 1 < length code then
              Inr (s\<lparr>cs_i := cs_i s + 2, cs_result := cs_result s @ [space_ch, space_ch]\<rparr>)
            else if ch = squote_ch then
              Inr (s\<lparr>cs_i := cs_i s + 1,
                     cs_result := cs_result s @ [space_ch],
                     cs_in_char := False\<rparr>)
            else
              Inr (s\<lparr>cs_i := cs_i s + 1, cs_result := cs_result s @ [space_ch]\<rparr>))
         else if ch = CHR ''/'' \<and> ch2 = Some CHR ''/'' then
           Inr (s\<lparr>cs_i := cs_i s + 2,
                  cs_result := cs_result s @ [space_ch, space_ch],
                  cs_in_sl_comment := True\<rparr>)
         else if ch = CHR ''/'' \<and> ch2 = Some CHR ''*'' then
           Inr (s\<lparr>cs_i := cs_i s + 2,
                  cs_result := cs_result s @ [space_ch, space_ch],
                  cs_in_ml_comment := True\<rparr>)
         else if ch = CHR ''@'' \<and> ch2 = Some dquote_ch then
           Inr (s\<lparr>cs_i := cs_i s + 2,
                  cs_result := cs_result s @ [space_ch, space_ch],
                  cs_in_verbatim_str := True\<rparr>)
         else if ch = dquote_ch then
           Inr (s\<lparr>cs_i := cs_i s + 1,
                  cs_result := cs_result s @ [space_ch],
                  cs_in_str := True\<rparr>)
         else if ch = squote_ch then
           Inr (s\<lparr>cs_i := cs_i s + 1,
                  cs_result := cs_result s @ [space_ch],
                  cs_in_char := True\<rparr>)
         else
           Inr (s\<lparr>cs_i := cs_i s + 1, cs_result := cs_result s @ [ch]\<rparr>)))"

function cs_while :: "string \<Rightarrow> cs_state \<Rightarrow> error + cs_state" where
  "cs_while code s =
     (if cs_i s < length code then
        (case cs_body code s of Inl e \<Rightarrow> Inl e | Inr s' \<Rightarrow> cs_while code s')
      else Inr s)"
  by pat_completeness auto
termination
proof (relation "measure (\<lambda>(code, s). length code - cs_i s)")
  show "wf (measure (\<lambda>(code, s). length code - cs_i s))" by simp
next
  fix code s s'
  assume "cs_i s < length code" and "cs_body code s = Inr s'"
  then show "((code, s'), (code, s)) \<in> measure (\<lambda>(code, s). length code - cs_i s)"
    by (auto simp: cs_body_def Let_def split: sum.splits if_splits)
qed

declare cs_while.simps [simp del]

definition cs_init :: cs_state where
  "cs_init = \<lparr>cs_i = 0, cs_result = [], cs_in_sl_comment = False, cs_in_ml_comment = False,
     cs_in_str = False, cs_in_verbatim_str = False, cs_in_char = False\<rparr>"

definition strip_csharp_comments_and_strings :: "string \<Rightarrow> error + string" where
  "strip_csharp_comments_and_strings code =
     (case cs_while code cs_init of Inl e \<Rightarrow> Inl e | Inr s \<Rightarrow> Inr (cs_result s))"


section \<open>The Java comment and string stripper (maven\_app\_inspector.py)\<close>

text \<open>
  \<open>strip_java_comments_and_strings\<close> has the same shape with four flags: Java has no
  verbatim strings.
\<close>

record jv_state =
  jv_i :: nat
  jv_result :: string
  jv_in_sl_comment :: bool
  jv_in_ml_comment :: bool
  jv_in_str :: bool
  jv_in_char :: bool

definition jv_body :: "string \<Rightarrow> jv_state \<Rightarrow> error + jv_state" where
  "jv_body code s =
    (case char_at code (jv_i s) of
       Inl e \<Rightarrow> Inl e
     | Inr ch \<Rightarrow>
        (let ch2 = char_after code (jv_i s) in
         if jv_in_sl_comment s then
           (if ch = newline_ch then
              Inr (s\<lparr>jv_i := jv_i s + 1,
                     jv_result := jv_result s @ [ch],
                     jv_in_sl_comment := False\<rparr>)
            else
              Inr (s\<lparr>jv_i := jv_i s + 1, jv_result := jv_result s @ [space_ch]\<rparr>))
         else if jv_in_ml_comment s then
           (if ch = CHR ''*'' \<and> ch2 = Some CHR ''/'' then
              Inr (s\<lparr>jv_i := jv_i s + 2,
                     jv_result := jv_result s @ [space_ch, space_ch],
                     jv_in_ml_comment := False\<rparr>)
            else
              Inr (s\<lparr>jv_i := jv_i s + 1, jv_result := jv_result s @ [blank ch]\<rparr>))
         else if jv_in_str s then
           (if ch = backslash_ch \<and> jv_i s + 1 < length code then
              Inr (s\<lparr>jv_i := jv_i s + 2, jv_result := jv_result s @ [space_ch, space_ch]\<rparr>)
            else if ch = dquote_ch then
              Inr (s\<lparr>jv_i := jv_i s + 1,
                     jv_result := jv_result s @ [space_ch],
                     jv_in_str := False\<rparr>)
            else
              Inr (s\<lparr>jv_i := jv_i s + 1, jv_result := jv_result s @ [space_ch]\<rparr>))
         else if jv_in_char s then
           (if ch = backslash_ch \<and> jv_i s + 1 < length code then
              Inr (s\<lparr>jv_i := jv_i s + 2, jv_result := jv_result s @ [space_ch, space_ch]\<rparr>)
            else if ch = squote_ch then
              Inr (s\<lparr>jv_i := jv_i s + 1,
                     jv_result := jv_result s @ [space_ch],
                     jv_in_char := False\<rparr>)
            else
              Inr (s\<lparr>jv_i := jv_i s + 1, jv_result := jv_result s @ [space_ch]\<rparr>))
         else if ch = CHR ''/'' \<and> ch2 = Some CHR ''/'' then
           Inr (s\<lparr>jv_i := jv_i s + 2,
                  jv_result := jv_result s @ [space_ch, space_ch],
                  jv_in_sl_comment := True\<rparr>)
         else if ch = CHR ''/'' \<and> ch2 = Some CHR ''*'' then
           Inr (s\<lparr>jv_i := jv_i s + 2,
                  jv_result := jv_result s @ [space_ch, space_ch],
                  jv_in_ml_comment := True\<rparr>)
         else if ch = dquote_ch then
           Inr (s\<lparr>jv_i := jv_i s + 1,
                  jv_result := jv_result s @ [space_ch],
                  jv_in_str := True\<rparr>)
         else if ch = squote_ch then
           Inr (s\<lparr>jv_i := jv_i s + 1,
                  jv_result := jv_result s @ [space_ch],
                  jv_in_char := True\<rparr>)
         else
           Inr (s\<lparr>jv_i := jv_i s + 1, jv_result := jv_result s @ [ch]\<rparr>)))"

function jv_while :: "string \<Rightarrow> jv_state \<Rightarrow> error + jv_state" where
  "jv_while code s =
     (if jv_i s < length code then
        (case jv_body code s of Inl e \<Rightarrow> Inl e | Inr s' \<Rightarrow> jv_while code s')
      else Inr s)"
  by pat_completeness auto
termination
proof (relation "measure (\<lambda>(code, s). length code - jv_i s)")
  show "wf (measure (\<lambda>(code, s). length code - jv_i s))" by simp
next
  fix code s s'
  assume "jv_i s < length code" and "jv_body code s = Inr s'"
  then show "((code, s'), (code, s)) \<in> measure (\<lambda>(code, s). length code - jv_i s)"
    by (auto simp: jv_body_def Let_def split: sum.splits if_splits)
qed

declare jv_while.simps [simp del]

definition jv_init :: jv_state where
  "jv_init = \<lparr>jv_i = 0, jv_result = [], jv_in_sl_comment = False, jv_in_ml_comment = False,
     jv_in_str = False, jv_in_char = False\<rparr>"

definition strip_java_comments_and_strings :: "string \<Rightarrow> error + string" where
  "strip_java_comments_and_strings code =
     (case jv_while code jv_init of Inl e \<Rightarrow> Inl e | Inr s \<Rightarrow> Inr (jv_result s))"

section \<open>The parameter splitter (the same function in both inspectors)\<close>

text \<open>
  \<open>str.strip()\<close> removes the characters for which \<open>str.isspace()\<close> holds from both
  ends. Among the characters a \<open>char\<close> can hold these are the codes below.
\<close>

definition py_isspace :: "char \<Rightarrow> bool" where
  "py_isspace c =
     ((of_char c :: nat) \<in> {0x09, 0x0A, 0x0B, 0x0C, 0x0D, 0x1C, 0x1D, 0x1E, 0x1F, 0x20, 0x85, 0xA0})"

definition py_strip :: "string \<Rightarrow> string" where
  "py_strip s = rev (dropWhile py_isspace (rev (dropWhile py_isspace s)))"

text \<open>The locals of \<open>split_params\<close>: \<open>depth\<close>, \<open>current\<close> and \<open>params\<close>.\<close>

record sp_state =
  sp_depth :: int
  sp_current :: string
  sp_params :: "string list"

text \<open>The body of \<open>for ch in param_block\<close>.\<close>

definition sp_step :: "sp_state \<Rightarrow> char \<Rightarrow> sp_state" where
  "sp_step s ch =
     (if ch = CHR ''<'' then
        s\<lparr>sp_depth := sp_depth s + 1, sp_current := sp_current s @ [ch]\<rparr>
      else if ch = CHR ''>'' then
        s\<lparr>sp_depth := max 0 (sp_depth s - 1), sp_current := sp_current s @ [ch]\<rparr>
      else if ch = CHR '','' \<and> sp_depth s = 0 then
        (let part = py_strip (sp_current s) in
         s\<lparr>sp_params := (if part \<noteq> [] then sp_params s @ [part] else sp_params s),
           sp_current := []\<rparr>)
      else
        s\<lparr>sp_current := sp_current s @ [ch]\<rparr>)"

definition split_params :: "string \<Rightarrow> string list" where
  "split_params param_block =
     (if param_block = [] then []
      else
        (let s = foldl sp_step \<lparr>sp_depth = 0, sp_current = [], sp_params = []\<rparr> param_block;
             tail = py_strip (sp_current s)
         in if tail \<noteq> [] then sp_params s @ [tail] else sp_params s))"



subsection \<open>The splitter as the specification describes it\<close>

text \<open>
  Section 4.2 of the specification, in its own words: a nesting depth that \<open><\<close> increments
  and \<open>>\<close> decrements, floored at zero; the separators are the commas read at depth
  zero; the text is cut at the separators and the empty pieces (after trimming) are
  dropped. This second definition is compared with \<open>split_params\<close> below.
\<close>

definition depth_step :: "int \<Rightarrow> char \<Rightarrow> int" where
  "depth_step d c =
     (if c = CHR ''<'' then d + 1 else if c = CHR ''>'' then max 0 (d - 1) else d)"

definition depth_after :: "string \<Rightarrow> int" where
  "depth_after p = foldl depth_step 0 p"

definition top_level_comma :: "string \<Rightarrow> nat \<Rightarrow> bool" where
  "top_level_comma s k \<longleftrightarrow> s ! k = CHR '','' \<and> depth_after (take k s) = 0"

definition top_level_commas :: "string \<Rightarrow> nat list" where
  "top_level_commas s = filter (top_level_comma s) [0..<length s]"

text \<open>The pieces of \<open>s\<close> from offset \<open>a\<close> on, cut at the offsets \<open>ks\<close>.\<close>

fun pieces_from :: "nat \<Rightarrow> string \<Rightarrow> nat list \<Rightarrow> string list" where
  "pieces_from a s [] = [drop a s]"
| "pieces_from a s (k # ks) = take (k - a) (drop a s) # pieces_from (Suc k) s ks"

definition split_params_spec :: "string \<Rightarrow> string list" where
  "split_params_spec s =
     filter (\<lambda>p. p \<noteq> []) (map py_strip (pieces_from 0 s (top_level_commas s)))"

section \<open>Unterminated comments and literals\<close>

text \<open>
  What it means for the rest of the input to close the construct the sanitizer is in:
  a block comment is closed by \<open>*/\<close>; a verbatim string by a quote that is not doubled;
  a string or character literal by a quote that no backslash escapes.
\<close>

fun has_block_close :: "string \<Rightarrow> bool" where
  "has_block_close (c # d # xs) =
     ((c = CHR ''*'' \<and> d = CHR ''/'') \<or> has_block_close (d # xs))"
| "has_block_close [c] = False"
| "has_block_close [] = False"

fun verbatim_closed :: "string \<Rightarrow> bool" where
  "verbatim_closed (c # d # xs) =
     (if c = dquote_ch \<and> d = dquote_ch then verbatim_closed xs
      else c = dquote_ch \<or> verbatim_closed (d # xs))"
| "verbatim_closed [c] = (c = dquote_ch)"
| "verbatim_closed [] = False"

fun literal_closed :: "char \<Rightarrow> string \<Rightarrow> bool" where
  "literal_closed q (c # d # xs) =
     (if c = backslash_ch then literal_closed q xs
      else c = q \<or> literal_closed q (d # xs))"
| "literal_closed q [c] = (c = q)"
| "literal_closed q [] = False"

text \<open>
  The loop is inside a comment or literal that \<open>rest\<close>, the input still to be read, does
  not close (a line comment is closed by a newline). The flags are tested in the order of
  the loop body.
\<close>

definition cs_unterminated :: "cs_state \<Rightarrow> string \<Rightarrow> bool" where
  "cs_unterminated s rest =
     (if cs_in_sl_comment s then newline_ch \<notin> set rest
      else if cs_in_ml_comment s then \<not> has_block_close rest
      else if cs_in_verbatim_str s then \<not> verbatim_closed rest
      else if cs_in_str s then \<not> literal_closed dquote_ch rest
      else if cs_in_char s then \<not> literal_closed squote_ch rest
      else False)"

definition jv_unterminated :: "jv_state \<Rightarrow> string \<Rightarrow> bool" where
  "jv_unterminated s rest =
     (if jv_in_sl_comment s then newline_ch \<notin> set rest
      else if jv_in_ml_comment s then \<not> has_block_close rest
      else if jv_in_str s then \<not> literal_closed dquote_ch rest
      else if jv_in_char s then \<not> literal_closed squote_ch rest
      else False)"

text \<open>
  The blanked rest: in a comment or a verbatim string every character becomes a space and a
  newline stays; in a string or character literal every character becomes a space.
\<close>

definition cs_blanked :: "cs_state \<Rightarrow> string \<Rightarrow> string" where
  "cs_blanked s rest =
     (if cs_in_sl_comment s \<or> cs_in_ml_comment s \<or> cs_in_verbatim_str s then map blank rest
      else replicate (length rest) space_ch)"

definition jv_blanked :: "jv_state \<Rightarrow> string \<Rightarrow> string" where
  "jv_blanked s rest =
     (if jv_in_sl_comment s \<or> jv_in_ml_comment s then map blank rest
      else replicate (length rest) space_ch)"

text \<open>
  The loop invariant of both sanitizers: the index stays within the input, \<open>result\<close> is as
  long as the input read so far, and each of its characters is the input's or a space.
\<close>

definition cs_inv :: "string \<Rightarrow> cs_state \<Rightarrow> bool" where
  "cs_inv code s \<longleftrightarrow> cs_i s \<le> length code \<and> length (cs_result s) = cs_i s \<and>
     (\<forall>j < cs_i s. cs_result s ! j = code ! j \<or> cs_result s ! j = space_ch)"

definition jv_inv :: "string \<Rightarrow> jv_state \<Rightarrow> bool" where
  "jv_inv code s \<longleftrightarrow> jv_i s \<le> length code \<and> length (jv_result s) = jv_i s \<and>
     (\<forall>j < jv_i s. jv_result s ! j = code ! j \<or> jv_result s ! j = space_ch)"

text \<open>
  The state of the loop after at most \<open>k\<close> iterations from state \<open>s\<close>: how the run of a
  sanitizer gets to the place where a comment or literal opens.
\<close>

fun cs_iterate :: "string \<Rightarrow> nat \<Rightarrow> cs_state \<Rightarrow> error + cs_state" where
  "cs_iterate code 0 s = Inr s"
| "cs_iterate code (Suc k) s =
     (if cs_i s < length code then
        (case cs_body code s of Inl e \<Rightarrow> Inl e | Inr s' \<Rightarrow> cs_iterate code k s')
      else Inr s)"

fun jv_iterate :: "string \<Rightarrow> nat \<Rightarrow> jv_state \<Rightarrow> error + jv_state" where
  "jv_iterate code 0 s = Inr s"
| "jv_iterate code (Suc k) s =
     (if jv_i s < length code then
        (case jv_body code s of Inl e \<Rightarrow> Inl e | Inr s' \<Rightarrow> jv_iterate code k s')
      else Inr s)"

text \<open>
  A character that opens nothing: not a slash, a quote or (in C\#) an at sign. A text of
  such characters is copied as it is.
\<close>

definition cs_plain :: "char \<Rightarrow> bool" where
  "cs_plain c = (c \<noteq> CHR ''/'' \<and> c \<noteq> dquote_ch \<and> c \<noteq> squote_ch \<and> c \<noteq> CHR ''@'')"

definition jv_plain :: "char \<Rightarrow> bool" where
  "jv_plain c = (c \<noteq> CHR ''/'' \<and> c \<noteq> dquote_ch \<and> c \<noteq> squote_ch)"

section \<open>Declaration extraction: which type owns a member\<close>

text \<open>
  \<open>parse_csharp_file\<close> and \<open>parse_java_file\<close> find declarations with the regular
  expressions \<open>TYPE_RE\<close>, \<open>METHOD_RE\<close> and \<open>CTOR_RE\<close> of Python's \<open>re\<close> library. The
  matches of \<open>finditer\<close> over the sanitized text are the input of the model: of a match its
  start offset \<open>m.start()\<close> and the groups the ownership code reads.
\<close>

record type_match =
  tm_start :: nat
  tm_kind :: string
  tm_name :: string

record member_match =
  mm_start :: nat
  mm_name :: string
  mm_params :: string

text \<open>
  The dictionaries built for a member and for a type, with the keys ownership depends on:
  \<open>name\<close>, the parameter strings of \<open>split_params\<close>, and the two member lists of a type.
  (The other keys are computed from the same match by regular expressions and are never
  read back.)
\<close>

record member_info =
  mi_name :: string
  mi_parameters :: "string list"

record type_info =
  ti_kind :: string
  ti_name :: string
  ti_methods :: "member_info list"
  ti_constructors :: "member_info list"

definition type_info_of :: "type_match \<Rightarrow> type_info" where
  "type_info_of m =
     \<lparr>ti_kind = tm_kind m, ti_name = tm_name m, ti_methods = [], ti_constructors = []\<rparr>"

definition member_info_of :: "member_match \<Rightarrow> member_info" where
  "member_info_of m = \<lparr>mi_name = mm_name m, mi_parameters = split_params (mm_params m)\<rparr>"

text \<open>
  \<open>boundaries\<close> (\<open>locs\<close> in the Java inspector): the pairs \<open>(m.start(), name)\<close> sorted as
  Python sorts tuples, then the sentinel \<open>(len(stripped) + 1, None)\<close>.
\<close>

definition boundaries_of :: "type_match list \<Rightarrow> nat \<Rightarrow> (nat \<times> string option) list" where
  "boundaries_of type_ms n =
     map (\<lambda>(st, nm). (st, Some nm)) (sort (map (\<lambda>m. (tm_start m, tm_name m)) type_ms))
       @ [(n + 1, None)]"

text \<open>
  \<open>owning_type_index\<close>: the first \<open>i\<close> of \<open>range(len(boundaries) - 1)\<close> with
  \<open>boundaries[i][0] <= pos < boundaries[i + 1][0]\<close>, or \<open>None\<close>. Both indices are in range
  for every \<open>i\<close> of that range.
\<close>

fun owning_scan :: "(nat \<times> string option) list \<Rightarrow> nat \<Rightarrow> nat list \<Rightarrow> nat option" where
  "owning_scan boundaries pos [] = None"
| "owning_scan boundaries pos (i # rest) =
     (if fst (boundaries ! i) \<le> pos \<and> pos < fst (boundaries ! (i + 1)) then Some i
      else owning_scan boundaries pos rest)"

definition owning_type_index :: "(nat \<times> string option) list \<Rightarrow> nat \<Rightarrow> nat option" where
  "owning_type_index boundaries pos = owning_scan boundaries pos [0..<length boundaries - 1]"

text \<open>The body of the loop over the matches of \<open>METHOD_RE\<close>.\<close>

definition add_method ::
  "(nat \<times> string option) list \<Rightarrow> type_info list \<Rightarrow> member_match \<Rightarrow> type_info list" where
  "add_method boundaries types mm =
     (case owning_type_index boundaries (mm_start mm) of
        None \<Rightarrow> types
      | Some idx \<Rightarrow>
          if idx \<ge> length types then types
          else types[idx := (types ! idx)
                 \<lparr>ti_methods := ti_methods (types ! idx) @ [member_info_of mm]\<rparr>])"

text \<open>The body of the loop over the matches of \<open>CTOR_RE\<close>.\<close>

definition add_constructor ::
  "(nat \<times> string option) list \<Rightarrow> type_info list \<Rightarrow> member_match \<Rightarrow> type_info list" where
  "add_constructor boundaries types mc =
     (case owning_type_index boundaries (mm_start mc) of
        None \<Rightarrow> types
      | Some idx \<Rightarrow>
          if idx \<ge> length types then types
          else if mm_name mc \<noteq> ti_name (types ! idx) then types
          else types[idx := (types ! idx)
                 \<lparr>ti_constructors := ti_constructors (types ! idx) @ [member_info_of mc]\<rparr>])"

text \<open>
  The \<open>types\<close> list of \<open>parse_csharp_file\<close>, from the length \<open>n\<close> of the sanitized text
  and the matches of the three expressions.
\<close>

definition parse_csharp_file ::
  "nat \<Rightarrow> type_match list \<Rightarrow> member_match list \<Rightarrow> member_match list \<Rightarrow> type_info list" where
  "parse_csharp_file n type_ms method_ms ctor_ms =
     (let types = map type_info_of type_ms in
      if types = [] then types
      else
        (let boundaries = boundaries_of type_ms n;
             types1 = foldl (add_method boundaries) types method_ms
         in foldl (add_constructor boundaries) types1 ctor_ms))"

text \<open>\<open>parse_java_file\<close> does the same with \<open>locs\<close> for \<open>boundaries\<close>.\<close>

definition parse_java_file ::
  "nat \<Rightarrow> type_match list \<Rightarrow> member_match list \<Rightarrow> member_match list \<Rightarrow> type_info list" where
  "parse_java_file n type_ms method_ms ctor_ms =
     (let types = map type_info_of type_ms in
      if types = [] then types
      else
        (let locs = boundaries_of type_ms n;
             types1 = foldl (add_method locs) types method_ms
         in foldl (add_constructor locs) types1 ctor_ms))"

text \<open>
  The end of the interval of the \<open>i\<close>-th type: the start of the next type, or the
  sentinel past the end of the text.
\<close>

definition interval_end :: "nat \<Rightarrow> type_match list \<Rightarrow> nat \<Rightarrow> nat" where
  "interval_end n type_ms i =
     (if i + 1 < length type_ms then tm_start (type_ms ! (i + 1)) else n + 1)"

section \<open>Project descriptors and the relationship graphs\<close>

text \<open>
  An \<open>Optional[str]\<close> is a \<open>string option\<close>; Python's truth test on it (\<open>if g\<close>,
  \<open>x or y\<close>) holds for a string that is present and not empty.
\<close>

definition truthy :: "string option \<Rightarrow> bool" where
  "truthy x = (case x of None \<Rightarrow> False | Some s \<Rightarrow> s \<noteq> [])"

text \<open>\<open>k and k in m\<close>, with the value found: the key is present, not empty, and in \<open>m\<close>.\<close>

definition lookup_truthy :: "string option \<Rightarrow> (string \<rightharpoonup> 'a) \<Rightarrow> 'a option" where
  "lookup_truthy k m = (case k of None \<Rightarrow> None | Some s \<Rightarrow> if s = [] then None else m s)"

text \<open>
  \<open>Path.resolve\<close> and the \<open>/\<close> of \<open>pathlib\<close> depend on the file system; both graph
  builders take them as parameters: \<open>resolve x\<close> is \<open>str(Path(x).resolve())\<close> and
  \<open>join a b\<close> is \<open>str(Path(a) / b)\<close>. In the Maven builder only the module loop
  resolves a path; the dependency edges do not depend on it, and \<open>resolve\<close> is taken there
  as the function of the paths it returns. In the .NET builder every edge depends on
  \<open>resolve\<close>, which is taken with its exception: \<open>Inl\<close> when it raises.
\<close>

subsection \<open>The .NET descriptor parser (dotnet\_app\_inspector.py)\<close>

text \<open>
  \<open>ET.fromstring\<close> is library code; \<open>parse_csproj\<close> is modelled from the element tree it
  returns. An element has a tag, attributes, the text before its first child (\<open>None\<close>
  when there is none) and its child elements in document order.
\<close>

datatype xml =
  Element (xml_tag: string) (xml_attrib: "(string \<times> string) list")
    (xml_text: "string option") (xml_children: "xml list")

text \<open>\<open>if "}" in el.tag: el.tag = el.tag.split("}", 1)[1]\<close>, for every element.\<close>

definition local_tag :: "string \<Rightarrow> string" where
  "local_tag t =
     (if CHR ''}'' \<in> set t then tl (dropWhile (\<lambda>c. c \<noteq> CHR ''}'') t) else t)"

fun strip_namespaces :: "xml \<Rightarrow> xml" where
  "strip_namespaces (Element t a x cs) = Element (local_tag t) a x (map strip_namespaces cs)"

text \<open>\<open>_xml_text\<close>: \<open>el.text.strip() if el is not None and el.text else None\<close>.\<close>

definition xml_text_of :: "xml option \<Rightarrow> string option" where
  "xml_text_of el =
     (case el of
        None \<Rightarrow> None
      | Some e \<Rightarrow>
          (case xml_text e of
             None \<Rightarrow> None
           | Some t \<Rightarrow> if t = [] then None else Some (py_strip t)))"

text \<open>\<open>findall\<close> and \<open>find\<close> with a plain tag: the direct children with that tag.\<close>

definition findall :: "xml \<Rightarrow> string \<Rightarrow> xml list" where
  "findall el tag = filter (\<lambda>c. xml_tag c = tag) (xml_children el)"

definition find_child :: "xml \<Rightarrow> string \<Rightarrow> xml option" where
  "find_child el tag = List.find (\<lambda>c. xml_tag c = tag) (xml_children el)"

text \<open>\<open>x or None\<close>.\<close>

definition or_none :: "string option \<Rightarrow> string option" where
  "or_none x = (if truthy x then x else None)"

text \<open>
  The body of \<open>for child in pg\<close>: an empty value is skipped, and a tag already in
  \<open>props\<close> keeps its value.
\<close>

definition props_step :: "(string \<rightharpoonup> string) \<Rightarrow> xml \<Rightarrow> (string \<rightharpoonup> string)" where
  "props_step props child =
     (case xml_text_of (Some child) of
        None \<Rightarrow> props
      | Some val \<Rightarrow>
          if val = [] then props
          else if props (xml_tag child) = None then props(xml_tag child \<mapsto> val)
          else props)"

definition collect_props :: "xml \<Rightarrow> (string \<rightharpoonup> string)" where
  "collect_props root =
     foldl (\<lambda>props pg. foldl props_step props (xml_children pg)) Map.empty
       (findall root ''PropertyGroup'')"

text \<open>\<open>s.split(sep)\<close> for a separator of one character.\<close>

fun split_on :: "char \<Rightarrow> string \<Rightarrow> string list" where
  "split_on sep [] = [[]]"
| "split_on sep (c # cs) =
     (if c = sep then [] # split_on sep cs
      else (case split_on sep cs of [] \<Rightarrow> [[c]] | p # ps \<Rightarrow> (c # p) # ps))"

definition target_frameworks_of :: "(string \<rightharpoonup> string) \<Rightarrow> string list" where
  "target_frameworks_of props =
     (let tfs1 = (case props ''TargetFramework'' of None \<Rightarrow> [] | Some tf \<Rightarrow> [tf]);
          tfs2 = (case props ''TargetFrameworks'' of
                    None \<Rightarrow> []
                  | Some s \<Rightarrow> filter (\<lambda>tf. tf \<noteq> []) (map py_strip (split_on CHR '';'' s)))
      in sort (remdups (tfs1 @ tfs2)))"

record project_reference =
  pr_include :: "string option"
  pr_name :: "string option"
  pr_project_guid :: "string option"

record package_reference =
  pk_name :: "string option"
  pk_version :: "string option"

text \<open>The dictionary \<open>parse_csproj\<close> returns.\<close>

record dotnet_project =
  dp_csproj_path :: string
  dp_dir :: string
  dp_assembly_name :: "string option"
  dp_root_namespace :: "string option"
  dp_target_frameworks :: "string list"
  dp_output_type :: "string option"
  dp_project_references :: "project_reference list"
  dp_package_references :: "package_reference list"

definition project_references_of :: "xml \<Rightarrow> project_reference list" where
  "project_references_of root =
     concat (map (\<lambda>ig.
       concat (map (\<lambda>pr.
         if \<not> truthy (map_of (xml_attrib pr) ''Include'') then []
         else [\<lparr>pr_include = map_of (xml_attrib pr) ''Include'',
                pr_name = or_none (xml_text_of (find_child pr ''Name'')),
                pr_project_guid = or_none (xml_text_of (find_child pr ''Project''))\<rparr>])
         (findall ig ''ProjectReference'')))
       (findall root ''ItemGroup''))"

definition package_references_of :: "xml \<Rightarrow> package_reference list" where
  "package_references_of root =
     concat (map (\<lambda>ig.
       concat (map (\<lambda>pr.
         if \<not> truthy (map_of (xml_attrib pr) ''Include'') then []
         else [\<lparr>pk_name = map_of (xml_attrib pr) ''Include'',
                pk_version =
                  (if truthy (map_of (xml_attrib pr) ''Version'')
                   then map_of (xml_attrib pr) ''Version''
                   else or_none (xml_text_of (find_child pr ''Version'')))\<rparr>])
         (findall ig ''PackageReference'')))
       (findall root ''ItemGroup''))"

text \<open>
  \<open>parse_csproj\<close>, from the path of the descriptor, its directory
  (\<open>str(csproj_path.parent)\<close>) and the parsed root element.
\<close>

definition parse_csproj :: "string \<Rightarrow> string \<Rightarrow> xml \<Rightarrow> dotnet_project" where
  "parse_csproj csproj_path dir parsed =
     (let root = strip_namespaces parsed;
          props = collect_props root
      in \<lparr>dp_csproj_path = csproj_path,
          dp_dir = dir,
          dp_assembly_name = props ''AssemblyName'',
          dp_root_namespace = props ''RootNamespace'',
          dp_target_frameworks = target_frameworks_of props,
          dp_output_type = props ''OutputType'',
          dp_project_references = project_references_of root,
          dp_package_references = package_references_of root\<rparr>)"

text \<open>
  The value a property group gives a field: the trimmed text of its first child with that
  tag whose text is not empty. \<open>first_defined\<close> is the first value of a list of optional
  values.
\<close>

fun first_defined :: "'a option list \<Rightarrow> 'a option" where
  "first_defined [] = None"
| "first_defined (None # xs) = first_defined xs"
| "first_defined (Some v # xs) = Some v"

definition field_value :: "string \<Rightarrow> xml \<Rightarrow> string option" where
  "field_value t c =
     (if xml_tag c = t \<and> truthy (xml_text_of (Some c)) then xml_text_of (Some c) else None)"

definition group_value :: "string \<Rightarrow> xml \<Rightarrow> string option" where
  "group_value t pg = first_defined (map (field_value t) (xml_children pg))"

subsection \<open>The Maven graph builder (maven\_app\_inspector.py)\<close>

text \<open>A dependency as \<open>parse_pom\<close> builds it (the keys \<open>build_graph\<close> reads).\<close>

record dependency =
  dep_groupId :: "string option"
  dep_artifactId :: "string option"
  dep_version :: "string option"
  dep_scope :: string
  dep_ga :: "string option"
  dep_gav :: "string option"

record parent_info =
  par_groupId :: "string option"
  par_artifactId :: "string option"
  par_version :: "string option"

record maven_project =
  mp_pom_path :: string
  mp_dir :: string
  mp_groupId :: "string option"
  mp_artifactId :: "string option"
  mp_version :: "string option"
  mp_parent :: "parent_info option"
  mp_modules :: "string list"
  mp_dependencies :: "dependency list"

definition ga_key :: "string option \<Rightarrow> string option \<Rightarrow> string option" where
  "ga_key g a =
     (case (g, a) of
        (Some gs, Some as) \<Rightarrow> if gs \<noteq> [] \<and> as \<noteq> [] then Some (gs @ '':'' @ as) else None
      | _ \<Rightarrow> None)"

definition gav_key :: "string option \<Rightarrow> string option \<Rightarrow> string option \<Rightarrow> string option" where
  "gav_key g a v =
     (case (g, a, v) of
        (Some gs, Some as, Some vs) \<Rightarrow>
          if gs \<noteq> [] \<and> as \<noteq> [] \<and> vs \<noteq> [] then Some (gs @ '':'' @ as @ '':'' @ vs) else None
      | _ \<Rightarrow> None)"

text \<open>The dependency dictionary of \<open>parse_pom\<close>, from the four texts read in the POM.\<close>

definition pom_dependency ::
  "string option \<Rightarrow> string option \<Rightarrow> string option \<Rightarrow> string option \<Rightarrow> dependency" where
  "pom_dependency dg da dv ds =
     \<lparr>dep_groupId = dg, dep_artifactId = da, dep_version = dv,
      dep_scope = (case ds of None \<Rightarrow> ''compile'' | Some s \<Rightarrow> if s = [] then ''compile'' else s),
      dep_ga = ga_key dg da, dep_gav = gav_key dg da dv\<rparr>"

abbreviation project_ga :: "maven_project \<Rightarrow> string option" where
  "project_ga p \<equiv> ga_key (mp_groupId p) (mp_artifactId p)"

abbreviation project_gav :: "maven_project \<Rightarrow> string option" where
  "project_gav p \<equiv> gav_key (mp_groupId p) (mp_artifactId p) (mp_version p)"

text \<open>The first loop of \<open>build_graph\<close>: the indexes \<open>by_gav\<close> and \<open>by_ga\<close>.\<close>

definition index_step ::
  "(string \<rightharpoonup> maven_project) \<times> (string \<rightharpoonup> maven_project) \<Rightarrow> maven_project \<Rightarrow>
   (string \<rightharpoonup> maven_project) \<times> (string \<rightharpoonup> maven_project)" where
  "index_step idx p =
     (let gk = project_ga p; vk = project_gav p;
          by_gav = (case vk of None \<Rightarrow> fst idx
                    | Some k \<Rightarrow> if k \<noteq> [] then (fst idx)(k \<mapsto> p) else fst idx);
          by_ga = (case gk of None \<Rightarrow> snd idx
                   | Some k \<Rightarrow> if k \<noteq> [] then (snd idx)(k \<mapsto> p) else snd idx)
      in (by_gav, by_ga))"

definition index_projects ::
  "maven_project list \<Rightarrow> (string \<rightharpoonup> maven_project) \<times> (string \<rightharpoonup> maven_project)" where
  "index_projects projects = foldl index_step (Map.empty, Map.empty) projects"

record parent_child_edge =
  pc_parent :: string
  pc_child :: string

record module_edge =
  me_aggregator :: "string option"
  me_module_path :: string

record dependency_edge =
  de_from :: string
  de_to :: "string option"
  de_scope :: string

text \<open>The loop over \<open><parent>\<close>.\<close>

definition parent_child_step :: "parent_child_edge list \<Rightarrow> maven_project \<Rightarrow> parent_child_edge list" where
  "parent_child_step acc p =
     (case mp_parent p of
        None \<Rightarrow> acc
      | Some par \<Rightarrow>
          (case (gav_key (par_groupId par) (par_artifactId par) (par_version par), project_gav p) of
             (Some parent_gav, Some child_gav) \<Rightarrow>
               if parent_gav \<noteq> [] \<and> child_gav \<noteq> []
               then acc @ [\<lparr>pc_parent = parent_gav, pc_child = child_gav\<rparr>] else acc
           | _ \<Rightarrow> acc))"

text \<open>The loop over the modules.\<close>

definition module_step ::
  "(string \<Rightarrow> string) \<Rightarrow> (string \<Rightarrow> string \<Rightarrow> string) \<Rightarrow>
   module_edge list \<Rightarrow> maven_project \<Rightarrow> module_edge list" where
  "module_step resolve join acc p =
     (if mp_modules p = [] then acc
      else foldl (\<lambda>edges m. edges @
             [\<lparr>me_aggregator = project_gav p, me_module_path = resolve (join (mp_dir p) m)\<rparr>])
           acc (mp_modules p))"

text \<open>
  The target of a dependency edge: the \<open>if gav and gav in by_gav\<close>, \<open>elif ga and ga in
  by_ga\<close>, \<open>else\<close> of the last loop.
\<close>

definition dependency_target ::
  "(string \<rightharpoonup> maven_project) \<Rightarrow> (string \<rightharpoonup> maven_project) \<Rightarrow> dependency \<Rightarrow> string option" where
  "dependency_target by_gav by_ga d =
     (case lookup_truthy (dep_gav d) by_gav of
        Some _ \<Rightarrow> dep_gav d
      | None \<Rightarrow>
          (case lookup_truthy (dep_ga d) by_ga of
             Some tgt \<Rightarrow> project_gav tgt
           | None \<Rightarrow> (if truthy (dep_ga d) then dep_ga d else Some ''external'')))"

text \<open>
  The body of the last loop for one project: nothing when \<open>from_gav\<close> is \<open>None\<close>
  (\<open>if not from_gav: continue\<close>), else one edge appended per dependency.
\<close>

definition dependency_step ::
  "(string \<rightharpoonup> maven_project) \<Rightarrow> (string \<rightharpoonup> maven_project) \<Rightarrow>
   dependency_edge list \<Rightarrow> maven_project \<Rightarrow> dependency_edge list" where
  "dependency_step by_gav by_ga acc p =
     (case project_gav p of
        None \<Rightarrow> acc
      | Some from_gav \<Rightarrow>
          if from_gav = [] then acc
          else foldl (\<lambda>edges d. edges @
                 [\<lparr>de_from = from_gav, de_to = dependency_target by_gav by_ga d,
                   de_scope = dep_scope d\<rparr>])
               acc (mp_dependencies p))"

record maven_graph =
  mg_parent_child :: "parent_child_edge list"
  mg_module_inclusion :: "module_edge list"
  mg_dependencies :: "dependency_edge list"

definition maven_build_graph ::
  "(string \<Rightarrow> string) \<Rightarrow> (string \<Rightarrow> string \<Rightarrow> string) \<Rightarrow> maven_project list \<Rightarrow> maven_graph" where
  "maven_build_graph resolve join projects =
     (let idx = index_projects projects in
      \<lparr>mg_parent_child = foldl parent_child_step [] projects,
       mg_module_inclusion = foldl (module_step resolve join) [] projects,
       mg_dependencies = foldl (dependency_step (fst idx) (snd idx)) [] projects\<rparr>)"

text \<open>
  The edges the last loop of the Maven \<open>build_graph\<close> appends for one project, as a list:
  none for a project without a full identity, else one per dependency.
\<close>

definition dependency_edges_of ::
  "(string \<rightharpoonup> maven_project) \<Rightarrow> (string \<rightharpoonup> maven_project) \<Rightarrow> maven_project \<Rightarrow>
   dependency_edge list" where
  "dependency_edges_of by_gav by_ga p =
     (case project_gav p of
        None \<Rightarrow> []
      | Some from_gav \<Rightarrow>
          map (\<lambda>d. \<lparr>de_from = from_gav, de_to = dependency_target by_gav by_ga d,
                     de_scope = dep_scope d\<rparr>) (mp_dependencies p))"

subsection \<open>The .NET graph builder (dotnet\_app\_inspector.py)\<close>
















section \<open>The source aggregators\<close>

text \<open>
  \<open>summarize_sources\<close> walks the file system and calls the file parser, which reads the
  file and may raise. Both are parameters of the model: a path is the list of its parts
  (\<open>Path.parts\<close>), \<open>str_of\<close> is \<open>str(path)\<close>, the files found by \<open>rglob\<close> are given as a
  list, and the parser returns either the traceback text of the exception it raised
  (\<open>Inl\<close>) or its summary (\<open>Inr\<close>).
\<close>

type_synonym path = "string list"

text \<open>What is accumulated per namespace or package.\<close>

record ns_obj =
  ns_files :: "string list"
  ns_types :: "type_info list"

subsection \<open>C\# sources (dotnet\_app\_inspector.py)\<close>

text \<open>
  The summary of a file: the dictionary of \<open>parse_csharp_file\<close>, or the one built in the
  \<open>except\<close> branch, which has the key \<open>error\<close>.
\<close>

record cs_summary =
  cs_path :: string
  cs_error :: "string option"
  cs_types :: "type_info list"
  cs_namespace :: "string option"

text \<open>\<open>try: summary = parse_csharp_file(cs) except Exception: summary = {...}\<close>\<close>

definition cs_summary_of ::
  "(path \<Rightarrow> string) \<Rightarrow> (path \<Rightarrow> string + cs_summary) \<Rightarrow> path \<Rightarrow> cs_summary" where
  "cs_summary_of str_of parse cs =
     (case parse cs of
        Inl traceback \<Rightarrow>
          \<lparr>cs_path = str_of cs, cs_error = Some traceback, cs_types = [], cs_namespace = None\<rparr>
      | Inr summary \<Rightarrow> summary)"

text \<open>The locals \<open>namespaces\<close> and \<open>files\<close>.\<close>

record cs_aggregate =
  ca_namespaces :: "string \<rightharpoonup> ns_obj"
  ca_files :: "cs_summary list"

text \<open>The rest of the loop body, after the summary is there.\<close>

definition cs_add_summary :: "cs_aggregate \<Rightarrow> cs_summary \<Rightarrow> cs_aggregate" where
  "cs_add_summary st summary =
     (let ns = (case cs_namespace summary of
                  None \<Rightarrow> ''(global)''
                | Some n \<Rightarrow> if n = [] then ''(global)'' else n);
          ns_obj = (case ca_namespaces st ns of
                      None \<Rightarrow> \<lparr>ns_files = [], ns_types = []\<rparr>
                    | Some ob \<Rightarrow> ob)
      in \<lparr>ca_namespaces = (ca_namespaces st)(ns \<mapsto>
              \<lparr>ns_files = ns_files ns_obj @ [cs_path summary],
               ns_types = ns_types ns_obj @ cs_types summary\<rparr>),
          ca_files = ca_files st @ [summary]\<rparr>)"

definition cs_file_step ::
  "(path \<Rightarrow> string) \<Rightarrow> (path \<Rightarrow> string + cs_summary) \<Rightarrow> cs_aggregate \<Rightarrow> path \<Rightarrow> cs_aggregate" where
  "cs_file_step str_of parse st cs =
     (if ''obj'' \<in> set cs \<or> ''bin'' \<in> set cs then st
      else cs_add_summary st (cs_summary_of str_of parse cs))"

definition cs_aggregate_sources ::
  "(path \<Rightarrow> string) \<Rightarrow> (path \<Rightarrow> string + cs_summary) \<Rightarrow> path list \<Rightarrow> cs_aggregate" where
  "cs_aggregate_sources str_of parse found =
     foldl (cs_file_step str_of parse) \<lparr>ca_namespaces = Map.empty, ca_files = []\<rparr> found"

text \<open>The dictionary returned: \<open>namespaces\<close> (or \<open>packages\<close>) and \<open>file_count\<close>.\<close>

record source_summary =
  ss_namespaces :: "string \<rightharpoonup> ns_obj"
  ss_file_count :: nat

text \<open>
  \<open>summarize_sources\<close> of the .NET inspector, from the files
  \<open>project_dir.rglob("*.cs")\<close> finds.
\<close>

definition cs_summarize_sources ::
  "(path \<Rightarrow> string) \<Rightarrow> (path \<Rightarrow> string + cs_summary) \<Rightarrow> path list \<Rightarrow> source_summary" where
  "cs_summarize_sources str_of parse found =
     (let st = cs_aggregate_sources str_of parse found
      in \<lparr>ss_namespaces = ca_namespaces st, ss_file_count = length (ca_files st)\<rparr>)"

subsection \<open>Java sources (maven\_app\_inspector.py)\<close>

text \<open>
  The summary of a Java file. The dictionary of the \<open>except\<close> branch has only \<open>path\<close> and
  \<open>error\<close>: a missing \<open>types\<close> is \<open>None\<close> here, read with the default \<open>[]\<close>.
\<close>

record jv_summary =
  jv_path :: string
  jv_error :: "string option"
  jv_types :: "type_info list option"
  jv_package :: "string option"

definition jv_summary_of ::
  "(path \<Rightarrow> string) \<Rightarrow> (path \<Rightarrow> string + jv_summary) \<Rightarrow> path \<Rightarrow> jv_summary" where
  "jv_summary_of str_of parse fp =
     (case parse fp of
        Inl traceback \<Rightarrow>
          \<lparr>jv_path = str_of fp, jv_error = Some traceback, jv_types = None, jv_package = None\<rparr>
      | Inr summary \<Rightarrow> summary)"

record jv_aggregate =
  ja_packages :: "string \<rightharpoonup> ns_obj"
  ja_files :: "jv_summary list"

definition jv_add_summary :: "jv_aggregate \<Rightarrow> jv_summary \<Rightarrow> jv_aggregate" where
  "jv_add_summary st summary =
     (let pkg = (case jv_package summary of
                   None \<Rightarrow> ''(default)''
                 | Some n \<Rightarrow> if n = [] then ''(default)'' else n);
          pkg_obj = (case ja_packages st pkg of
                       None \<Rightarrow> \<lparr>ns_files = [], ns_types = []\<rparr>
                     | Some ob \<Rightarrow> ob)
      in \<lparr>ja_packages = (ja_packages st)(pkg \<mapsto>
              \<lparr>ns_files = ns_files pkg_obj @ [jv_path summary],
               ns_types = ns_types pkg_obj @
                 (case jv_types summary of None \<Rightarrow> [] | Some ts \<Rightarrow> ts)\<rparr>),
          ja_files = ja_files st @ [summary]\<rparr>)"

text \<open>
  The outer loop over \<open>DEFAULT_SOURCE_DIRS\<close>: for each of them, \<open>None\<close> when the directory
  does not exist (\<open>continue\<close>), else the files \<open>rglob("*.java")\<close> finds in it.
\<close>

definition jv_dir_step ::
  "(path \<Rightarrow> string) \<Rightarrow> (path \<Rightarrow> string + jv_summary) \<Rightarrow> jv_aggregate \<Rightarrow> path list option \<Rightarrow>
   jv_aggregate" where
  "jv_dir_step str_of parse st src_dir =
     (case src_dir of
        None \<Rightarrow> st
      | Some found \<Rightarrow>
          foldl (\<lambda>st fp. jv_add_summary st (jv_summary_of str_of parse fp)) st found)"

definition jv_aggregate_sources ::
  "(path \<Rightarrow> string) \<Rightarrow> (path \<Rightarrow> string + jv_summary) \<Rightarrow> path list option list \<Rightarrow> jv_aggregate" where
  "jv_aggregate_sources str_of parse src_dirs =
     foldl (jv_dir_step str_of parse) \<lparr>ja_packages = Map.empty, ja_files = []\<rparr> src_dirs"

definition jv_summarize_sources ::
  "(path \<Rightarrow> string) \<Rightarrow> (path \<Rightarrow> string + jv_summary) \<Rightarrow> path list option list \<Rightarrow> source_summary" where
  "jv_summarize_sources str_of parse src_dirs =
     (let st = jv_aggregate_sources str_of parse src_dirs
      in \<lparr>ss_namespaces = ja_packages st, ss_file_count = length (ja_files st)\<rparr>)"

text \<open>The types recorded under a namespace or package (none when it is not a key).\<close>

definition types_under :: "(string \<rightharpoonup> ns_obj) \<Rightarrow> string \<Rightarrow> type_info list" where
  "types_under m ns = (case m ns of None \<Rightarrow> [] | Some ob \<Rightarrow> ns_types ob)"

definition files_under :: "(string \<rightharpoonup> ns_obj) \<Rightarrow> string \<Rightarrow> string list" where
  "files_under m ns = (case m ns of None \<Rightarrow> [] | Some ob \<Rightarrow> ns_files ob)"

text \<open>The key a summary is filed under: \<open>summary.get("namespace") or "(global)"\<close>.\<close>

definition cs_key :: "cs_summary \<Rightarrow> string" where
  "cs_key summary =
     (case cs_namespace summary of
        None \<Rightarrow> ''(global)''
      | Some n \<Rightarrow> if n = [] then ''(global)'' else n)"

definition jv_key :: "jv_summary \<Rightarrow> string" where
  "jv_key summary =
     (case jv_package summary of
        None \<Rightarrow> ''(default)''
      | Some n \<Rightarrow> if n = [] then ''(default)'' else n)"

text \<open>The files of the source directories that exist, in the order they are scanned.\<close>

definition scanned_files :: "path list option list \<Rightarrow> path list" where
  "scanned_files src_dirs =
     concat (map (\<lambda>d. case d of None \<Rightarrow> [] | Some found \<Rightarrow> found) src_dirs)"

section \<open>Verified properties\<close>

subsection \<open>The parameter splitter\<close>

lemma top_level_commas_snoc:
  "top_level_commas (s @ [c]) =
     top_level_commas s @ (if c = CHR '','' \<and> depth_after s = 0 then [length s] else [])"
proof -
  have "filter (top_level_comma (s @ [c])) [0..<length s] =
        filter (top_level_comma s) [0..<length s]"
    by (rule filter_cong) (auto simp: top_level_comma_def nth_append)
  then show ?thesis
    by (simp add: top_level_commas_def top_level_comma_def)
qed

lemma top_level_commas_bound: "\<forall>k \<in> set (top_level_commas s). k < length s"
  by (simp add: top_level_commas_def)

lemma pieces_from_nonempty: "pieces_from a s ks \<noteq> []"
  by (cases ks) simp_all

text \<open>Reading one more character that is no separator extends the last piece.\<close>

lemma pieces_from_snoc_keep:
  assumes "\<forall>k \<in> set ks. k < length s" and "a \<le> length s"
  shows "pieces_from a (s @ [c]) ks =
     butlast (pieces_from a s ks) @ [last (pieces_from a s ks) @ [c]]"
  using assms
proof (induction ks arbitrary: a)
  case Nil
  then show ?case by simp
next
  case (Cons k ks)
  then show ?case by (simp add: pieces_from_nonempty)
qed

text \<open>Reading a separator closes the last piece and opens an empty one.\<close>

lemma pieces_from_snoc_cut:
  assumes "\<forall>k \<in> set ks. k < length s" and "a \<le> length s"
  shows "pieces_from a (s @ [c]) (ks @ [length s]) = pieces_from a s ks @ [[]]"
  using assms
proof (induction ks arbitrary: a)
  case Nil
  then show ?case by simp
next
  case (Cons k ks)
  then show ?case by simp
qed

lemma filter_map_split_last:
  assumes "xs \<noteq> []"
  shows "filter P (map f xs) =
     filter P (map f (butlast xs)) @ (if P (f (last xs)) then [f (last xs)] else [])"
proof -
  have "filter P (map f (butlast xs @ [last xs])) =
     filter P (map f (butlast xs)) @ (if P (f (last xs)) then [f (last xs)] else [])"
    by simp
  then show ?thesis using assms by simp
qed

text \<open>
  The loop invariant of \<open>split_params\<close>: after any prefix \<open>s\<close>, \<open>depth\<close> is the nesting
  depth of \<open>s\<close>, \<open>current\<close> is the piece being read and \<open>params\<close> holds the earlier pieces,
  trimmed, without the empty ones.
\<close>

lemma foldl_sp_step:
  "foldl sp_step \<lparr>sp_depth = 0, sp_current = [], sp_params = []\<rparr> s =
     \<lparr>sp_depth = depth_after s,
      sp_current = last (pieces_from 0 s (top_level_commas s)),
      sp_params = filter (\<lambda>p. p \<noteq> [])
        (map py_strip (butlast (pieces_from 0 s (top_level_commas s))))\<rparr>"
proof (induction s rule: rev_induct)
  case Nil
  then show ?case by (simp add: depth_after_def top_level_commas_def)
next
  case (snoc c s)
  show ?case
  proof (cases "c = CHR '','' \<and> depth_after s = 0")
    case True
    then show ?thesis
      using snoc pieces_from_snoc_cut [OF top_level_commas_bound, of 0 s c]
      by (simp add: top_level_commas_snoc sp_step_def depth_after_def depth_step_def Let_def
          filter_map_split_last [OF pieces_from_nonempty])
  next
    case False
    then show ?thesis
      using snoc pieces_from_snoc_keep [OF top_level_commas_bound, of 0 s c]
      by (auto simp add: top_level_commas_snoc sp_step_def depth_after_def depth_step_def
          pieces_from_nonempty)
  qed
qed

lemma split_params_refines: "split_params s = split_params_spec s"
proof (cases "s = []")
  case True
  then show ?thesis
    by (simp add: split_params_def split_params_spec_def top_level_commas_def py_strip_def)
next
  case False
  then show ?thesis
    by (simp add: split_params_def split_params_spec_def foldl_sp_step Let_def
        filter_map_split_last [OF pieces_from_nonempty])
qed

text \<open>
  Claim C7. For every input string, \<open>split_params\<close> returns the pieces of the input cut at
  the commas read at nesting depth zero (the depth goes up on \<open><\<close> and down, floored at
  zero, on \<open>>\<close>), each piece trimmed and the empty ones dropped; on
  \<open>Map<K, V> a, int b\<close> it returns the two parameters \<open>Map<K, V> a\<close> and \<open>int b\<close>, and on the
  empty string it returns the empty list.
\<close>

theorem split_params_depth_aware:
  "split_params s = split_params_spec s \<and>
   split_params ''Map<K, V> a, int b'' = [''Map<K, V> a'', ''int b''] \<and>
   split_params [] = []"
proof -
  have "split_params ''Map<K, V> a, int b'' = [''Map<K, V> a'', ''int b'']"
    by code_simp
  moreover have "split_params [] = []"
    by (simp add: split_params_def)
  ultimately show ?thesis
    using split_params_refines [of s] by simp
qed

theorem split_params_depth_aware_witness:
  "split_params_spec ''f(List<A, B> x,, T y)'' = [''f(List<A, B> x'', ''T y)'']"
proof -
  have "split_params ''f(List<A, B> x,, T y)'' = [''f(List<A, B> x'', ''T y)'']"
    by code_simp
  then show ?thesis
    using split_params_depth_aware [of "''f(List<A, B> x,, T y)''"] by simp
qed

subsection \<open>The sanitizers: totality, length and blanking\<close>

lemma cs_body_inv:
  assumes "cs_inv code s" and "cs_i s < length code"
  shows "\<exists>s'. cs_body code s = Inr s' \<and> cs_inv code s'"
  using assms
  unfolding cs_inv_def cs_body_def char_at_def char_after_def Let_def blank_def
  by (auto simp: nth_append less_Suc_eq)

lemma cs_while_inv:
  "cs_inv code s \<Longrightarrow>
   \<exists>s'. cs_while code s = Inr s' \<and> cs_inv code s' \<and> cs_i s' = length code"
proof (induction code s rule: cs_while.induct)
  case (1 code s)
  show ?case
  proof (cases "cs_i s < length code")
    case True
    from cs_body_inv [OF "1.prems" True] obtain s1 where
      b: "cs_body code s = Inr s1" and i: "cs_inv code s1" by blast
    from "1.IH" [OF True b i] obtain s' where
      "cs_while code s1 = Inr s'" "cs_inv code s'" "cs_i s' = length code" by blast
    then show ?thesis using True b by (subst cs_while.simps) simp
  next
    case False
    then show ?thesis using "1.prems"
      by (subst cs_while.simps) (simp add: cs_inv_def)
  qed
qed

lemma jv_body_inv:
  assumes "jv_inv code s" and "jv_i s < length code"
  shows "\<exists>s'. jv_body code s = Inr s' \<and> jv_inv code s'"
  using assms
  unfolding jv_inv_def jv_body_def char_at_def char_after_def Let_def blank_def
  by (auto simp: nth_append less_Suc_eq)

lemma jv_while_inv:
  "jv_inv code s \<Longrightarrow>
   \<exists>s'. jv_while code s = Inr s' \<and> jv_inv code s' \<and> jv_i s' = length code"
proof (induction code s rule: jv_while.induct)
  case (1 code s)
  show ?case
  proof (cases "jv_i s < length code")
    case True
    from jv_body_inv [OF "1.prems" True] obtain s1 where
      b: "jv_body code s = Inr s1" and i: "jv_inv code s1" by blast
    from "1.IH" [OF True b i] obtain s' where
      "jv_while code s1 = Inr s'" "jv_inv code s'" "jv_i s' = length code" by blast
    then show ?thesis using True b by (subst jv_while.simps) simp
  next
    case False
    then show ?thesis using "1.prems"
      by (subst jv_while.simps) (simp add: jv_inv_def)
  qed
qed

text \<open>
  Both sanitizers return, for every input, a text of the input's length in which every
  character is the input's character or a space: no newline appears where the input has
  none.
\<close>

lemma strip_csharp_pointwise:
  "\<exists>out. strip_csharp_comments_and_strings code = Inr out \<and> length out = length code \<and>
     (\<forall>j < length code. out ! j = code ! j \<or> out ! j = space_ch)"
proof -
  have "cs_inv code cs_init" by (simp add: cs_inv_def cs_init_def)
  from cs_while_inv [OF this] obtain s' where
    "cs_while code cs_init = Inr s'" "cs_inv code s'" "cs_i s' = length code" by blast
  then show ?thesis
    by (simp add: strip_csharp_comments_and_strings_def cs_inv_def)
qed

lemma strip_java_pointwise:
  "\<exists>out. strip_java_comments_and_strings code = Inr out \<and> length out = length code \<and>
     (\<forall>j < length code. out ! j = code ! j \<or> out ! j = space_ch)"
proof -
  have "jv_inv code jv_init" by (simp add: jv_inv_def jv_init_def)
  from jv_while_inv [OF this] obtain s' where
    "jv_while code jv_init = Inr s'" "jv_inv code s'" "jv_i s' = length code" by blast
  then show ?thesis
    by (simp add: strip_java_comments_and_strings_def jv_inv_def)
qed

lemma cs_body_unterminated:
  assumes "cs_unterminated s (drop (cs_i s) code)" and "cs_i s < length code"
  shows "\<exists>s'. cs_body code s = Inr s' \<and> cs_unterminated s' (drop (cs_i s') code) \<and>
    cs_result s' @ cs_blanked s' (drop (cs_i s') code) =
    cs_result s @ cs_blanked s (drop (cs_i s) code)"
proof -
  have d1: "drop (cs_i s) code = code ! cs_i s # drop (Suc (cs_i s)) code"
    using assms(2) by (simp add: Cons_nth_drop_Suc)
  show ?thesis
  proof (cases "Suc (cs_i s) < length code")
    case True
    then have d2: "drop (Suc (cs_i s)) code =
        code ! Suc (cs_i s) # drop (Suc (Suc (cs_i s))) code"
      by (simp add: Cons_nth_drop_Suc)
    show ?thesis
      using assms True unfolding d1 d2
      by (auto simp: cs_body_def char_at_def char_after_def Let_def cs_unterminated_def
          cs_blanked_def blank_def d1 d2 split: if_splits)
  next
    case False
    then have d2: "drop (Suc (cs_i s)) code = []" by simp
    show ?thesis
      using assms False unfolding d1 d2
      by (auto simp: cs_body_def char_at_def char_after_def Let_def cs_unterminated_def
          cs_blanked_def blank_def d1 d2 split: if_splits)
  qed
qed

lemma cs_while_unterminated:
  "cs_unterminated s (drop (cs_i s) code) \<Longrightarrow>
   \<exists>s'. cs_while code s = Inr s' \<and>
     cs_result s' = cs_result s @ cs_blanked s (drop (cs_i s) code)"
proof (induction code s rule: cs_while.induct)
  case (1 code s)
  show ?case
  proof (cases "cs_i s < length code")
    case True
    from cs_body_unterminated [OF "1.prems" True] obtain s1 where
      b: "cs_body code s = Inr s1" and u: "cs_unterminated s1 (drop (cs_i s1) code)"
      and r: "cs_result s1 @ cs_blanked s1 (drop (cs_i s1) code) =
              cs_result s @ cs_blanked s (drop (cs_i s) code)" by blast
    from "1.IH" [OF True b u] obtain s' where
      "cs_while code s1 = Inr s'"
      "cs_result s' = cs_result s1 @ cs_blanked s1 (drop (cs_i s1) code)"
      by blast
    then show ?thesis using True b r by (subst cs_while.simps) simp
  next
    case False
    then show ?thesis
      by (subst cs_while.simps) (simp add: cs_blanked_def)
  qed
qed

lemma jv_body_unterminated:
  assumes "jv_unterminated s (drop (jv_i s) code)" and "jv_i s < length code"
  shows "\<exists>s'. jv_body code s = Inr s' \<and> jv_unterminated s' (drop (jv_i s') code) \<and>
    jv_result s' @ jv_blanked s' (drop (jv_i s') code) =
    jv_result s @ jv_blanked s (drop (jv_i s) code)"
proof -
  have d1: "drop (jv_i s) code = code ! jv_i s # drop (Suc (jv_i s)) code"
    using assms(2) by (simp add: Cons_nth_drop_Suc)
  show ?thesis
  proof (cases "Suc (jv_i s) < length code")
    case True
    then have d2: "drop (Suc (jv_i s)) code =
        code ! Suc (jv_i s) # drop (Suc (Suc (jv_i s))) code"
      by (simp add: Cons_nth_drop_Suc)
    show ?thesis
      using assms True unfolding d1 d2
      by (auto simp: jv_body_def char_at_def char_after_def Let_def jv_unterminated_def
          jv_blanked_def blank_def d1 d2 split: if_splits)
  next
    case False
    then have d2: "drop (Suc (jv_i s)) code = []" by simp
    show ?thesis
      using assms False unfolding d1 d2
      by (auto simp: jv_body_def char_at_def char_after_def Let_def jv_unterminated_def
          jv_blanked_def blank_def d1 d2 split: if_splits)
  qed
qed

lemma jv_while_unterminated:
  "jv_unterminated s (drop (jv_i s) code) \<Longrightarrow>
   \<exists>s'. jv_while code s = Inr s' \<and>
     jv_result s' = jv_result s @ jv_blanked s (drop (jv_i s) code)"
proof (induction code s rule: jv_while.induct)
  case (1 code s)
  show ?case
  proof (cases "jv_i s < length code")
    case True
    from jv_body_unterminated [OF "1.prems" True] obtain s1 where
      b: "jv_body code s = Inr s1" and u: "jv_unterminated s1 (drop (jv_i s1) code)"
      and r: "jv_result s1 @ jv_blanked s1 (drop (jv_i s1) code) =
              jv_result s @ jv_blanked s (drop (jv_i s) code)" by blast
    from "1.IH" [OF True b u] obtain s' where
      "jv_while code s1 = Inr s'"
      "jv_result s' = jv_result s1 @ jv_blanked s1 (drop (jv_i s1) code)"
      by blast
    then show ?thesis using True b r by (subst jv_while.simps) simp
  next
    case False
    then show ?thesis
      by (subst jv_while.simps) (simp add: jv_blanked_def)
  qed
qed

text \<open>The loop goes on from any state its own iterations reach.\<close>

lemma cs_iterate_while:
  "cs_iterate code k s = Inr s' \<Longrightarrow> cs_while code s = cs_while code s'"
proof (induction k arbitrary: s)
  case 0
  then show ?case by simp
next
  case (Suc k)
  show ?case
  proof (cases "cs_i s < length code")
    case True
    then obtain s1 where b: "cs_body code s = Inr s1" and r: "cs_iterate code k s1 = Inr s'"
      using Suc.prems by (auto split: sum.splits)
    have "cs_while code s = cs_while code s1"
      using True b by (subst cs_while.simps) simp
    then show ?thesis using Suc.IH [OF r] by simp
  next
    case False
    then show ?thesis using Suc.prems by simp
  qed
qed

lemma jv_iterate_while:
  "jv_iterate code k s = Inr s' \<Longrightarrow> jv_while code s = jv_while code s'"
proof (induction k arbitrary: s)
  case 0
  then show ?case by simp
next
  case (Suc k)
  show ?case
  proof (cases "jv_i s < length code")
    case True
    then obtain s1 where b: "jv_body code s = Inr s1" and r: "jv_iterate code k s1 = Inr s'"
      using Suc.prems by (auto split: sum.splits)
    have "jv_while code s = jv_while code s1"
      using True b by (subst jv_while.simps) simp
    then show ?thesis using Suc.IH [OF r] by simp
  next
    case False
    then show ?thesis using Suc.prems by simp
  qed
qed

text \<open>
  The output of a sanitizer whose run reaches a state inside a comment or literal that the
  rest of the input does not close: what was written so far, then the blanked rest.
\<close>

lemma strip_csharp_unterminated:
  assumes "cs_iterate code k cs_init = Inr s" and "cs_unterminated s (drop (cs_i s) code)"
  shows "strip_csharp_comments_and_strings code =
           Inr (cs_result s @ cs_blanked s (drop (cs_i s) code))"
proof -
  from cs_while_unterminated [OF assms(2)] obtain s' where
    "cs_while code s = Inr s'" "cs_result s' = cs_result s @ cs_blanked s (drop (cs_i s) code)"
    by blast
  then show ?thesis
    using cs_iterate_while [OF assms(1)] by (simp add: strip_csharp_comments_and_strings_def)
qed

lemma strip_java_unterminated:
  assumes "jv_iterate code k jv_init = Inr s" and "jv_unterminated s (drop (jv_i s) code)"
  shows "strip_java_comments_and_strings code =
           Inr (jv_result s @ jv_blanked s (drop (jv_i s) code))"
proof -
  from jv_while_unterminated [OF assms(2)] obtain s' where
    "jv_while code s = Inr s'" "jv_result s' = jv_result s @ jv_blanked s (drop (jv_i s) code)"
    by blast
  then show ?thesis
    using jv_iterate_while [OF assms(1)] by (simp add: strip_java_comments_and_strings_def)
qed

text \<open>A prefix of plain characters is copied, and leaves the loop in its normal state.\<close>

lemma cs_iterate_plain:
  assumes "list_all cs_plain pre"
  shows "cs_iterate (seen @ pre @ rest) (length pre)
           (cs_init\<lparr>cs_i := length seen, cs_result := seen\<rparr>) =
         Inr (cs_init\<lparr>cs_i := length seen + length pre, cs_result := seen @ pre\<rparr>)"
  using assms
proof (induction pre arbitrary: seen)
  case Nil
  then show ?case by simp
next
  case (Cons c pre)
  have b: "cs_body (seen @ c # pre @ rest) (cs_init\<lparr>cs_i := length seen, cs_result := seen\<rparr>) =
           Inr (cs_init\<lparr>cs_i := length (seen @ [c]), cs_result := seen @ [c]\<rparr>)"
    using Cons.prems
    by (simp add: cs_body_def char_at_def char_after_def cs_init_def cs_plain_def Let_def)
  show ?case
    using Cons.IH [of "seen @ [c]"] Cons.prems b by simp
qed

lemma jv_iterate_plain:
  assumes "list_all jv_plain pre"
  shows "jv_iterate (seen @ pre @ rest) (length pre)
           (jv_init\<lparr>jv_i := length seen, jv_result := seen\<rparr>) =
         Inr (jv_init\<lparr>jv_i := length seen + length pre, jv_result := seen @ pre\<rparr>)"
  using assms
proof (induction pre arbitrary: seen)
  case Nil
  then show ?case by simp
next
  case (Cons c pre)
  have b: "jv_body (seen @ c # pre @ rest) (jv_init\<lparr>jv_i := length seen, jv_result := seen\<rparr>) =
           Inr (jv_init\<lparr>jv_i := length (seen @ [c]), jv_result := seen @ [c]\<rparr>)"
    using Cons.prems
    by (simp add: jv_body_def char_at_def char_after_def jv_init_def jv_plain_def Let_def)
  show ?case
    using Cons.IH [of "seen @ [c]"] Cons.prems b by simp
qed

text \<open>One more iteration after the iterations that reached \<open>s1\<close>.\<close>

lemma cs_iterate_step:
  "cs_iterate code k s = Inr s1 \<Longrightarrow> cs_i s1 < length code \<Longrightarrow> cs_body code s1 = Inr s2 \<Longrightarrow>
   \<exists>k'. cs_iterate code k' s = Inr s2"
proof (induction k arbitrary: s)
  case 0
  then have "cs_iterate code (Suc 0) s = Inr s2" by simp
  then show ?case by blast
next
  case (Suc k)
  show ?case
  proof (cases "cs_i s < length code")
    case True
    then obtain s' where b: "cs_body code s = Inr s'" and r: "cs_iterate code k s' = Inr s1"
      using Suc.prems(1) by (auto split: sum.splits)
    from Suc.IH [OF r Suc.prems(2,3)] obtain k' where "cs_iterate code k' s' = Inr s2" by blast
    then have "cs_iterate code (Suc k') s = Inr s2" using True b by simp
    then show ?thesis by blast
  next
    case False
    then have "s1 = s" using Suc.prems(1) by simp
    then have "cs_iterate code (Suc 0) s = Inr s2" using Suc.prems(2,3) by simp
    then show ?thesis by blast
  qed
qed

lemma jv_iterate_step:
  "jv_iterate code k s = Inr s1 \<Longrightarrow> jv_i s1 < length code \<Longrightarrow> jv_body code s1 = Inr s2 \<Longrightarrow>
   \<exists>k'. jv_iterate code k' s = Inr s2"
proof (induction k arbitrary: s)
  case 0
  then have "jv_iterate code (Suc 0) s = Inr s2" by simp
  then show ?case by blast
next
  case (Suc k)
  show ?case
  proof (cases "jv_i s < length code")
    case True
    then obtain s' where b: "jv_body code s = Inr s'" and r: "jv_iterate code k s' = Inr s1"
      using Suc.prems(1) by (auto split: sum.splits)
    from Suc.IH [OF r Suc.prems(2,3)] obtain k' where "jv_iterate code k' s' = Inr s2" by blast
    then have "jv_iterate code (Suc k') s = Inr s2" using True b by simp
    then show ?thesis by blast
  next
    case False
    then have "s1 = s" using Suc.prems(1) by simp
    then have "jv_iterate code (Suc 0) s = Inr s2" using Suc.prems(2,3) by simp
    then show ?thesis by blast
  qed
qed

text \<open>
  The output on a plain prefix followed by an opener and a body that does not close it.
  The state after the opener is given; the lemma adds the blanked body.
\<close>

lemma strip_csharp_opened:
  assumes "list_all cs_plain pre"
    and "cs_body (pre @ opener @ body) (cs_init\<lparr>cs_i := length pre, cs_result := pre\<rparr>) = Inr s2"
    and "opener \<noteq> []"
    and "cs_i s2 = length pre + length opener"
    and "cs_unterminated s2 body"
  shows "strip_csharp_comments_and_strings (pre @ opener @ body) =
           Inr (cs_result s2 @ cs_blanked s2 body)"
proof -
  let ?code = "pre @ opener @ body"
  have "cs_iterate ?code (length pre) cs_init =
      Inr (cs_init\<lparr>cs_i := length pre, cs_result := pre\<rparr>)"
    using cs_iterate_plain [OF assms(1), of "[]" "opener @ body"] by (simp add: cs_init_def)
  from cs_iterate_step [OF this _ assms(2)] assms(3)
  obtain k' where k: "cs_iterate ?code k' cs_init = Inr s2" by (auto simp: cs_init_def)
  have d: "drop (cs_i s2) ?code = body" using assms(4) by simp
  show ?thesis
    using strip_csharp_unterminated [OF k] assms(5) d by simp
qed

lemma strip_java_opened:
  assumes "list_all jv_plain pre"
    and "jv_body (pre @ opener @ body) (jv_init\<lparr>jv_i := length pre, jv_result := pre\<rparr>) = Inr s2"
    and "opener \<noteq> []"
    and "jv_i s2 = length pre + length opener"
    and "jv_unterminated s2 body"
  shows "strip_java_comments_and_strings (pre @ opener @ body) =
           Inr (jv_result s2 @ jv_blanked s2 body)"
proof -
  let ?code = "pre @ opener @ body"
  have "jv_iterate ?code (length pre) jv_init =
      Inr (jv_init\<lparr>jv_i := length pre, jv_result := pre\<rparr>)"
    using jv_iterate_plain [OF assms(1), of "[]" "opener @ body"] by (simp add: jv_init_def)
  from jv_iterate_step [OF this _ assms(2)] assms(3)
  obtain k' where k: "jv_iterate ?code k' jv_init = Inr s2" by (auto simp: jv_init_def)
  have d: "drop (jv_i s2) ?code = body" using assms(4) by simp
  show ?thesis
    using strip_java_unterminated [OF k] assms(5) d by simp
qed

lemma strip_csharp_block_comment:
  assumes "list_all cs_plain pre" and "\<not> has_block_close body"
  shows "strip_csharp_comments_and_strings (pre @ ''/*'' @ body) =
           Inr (pre @ ''  '' @ map blank body)"
proof -
  have b: "cs_body (pre @ ''/*'' @ body) (cs_init\<lparr>cs_i := length pre, cs_result := pre\<rparr>) =
      Inr (cs_init\<lparr>cs_i := length pre + 2, cs_result := pre @ ''  '', cs_in_ml_comment := True\<rparr>)"
    by (simp add: cs_body_def char_at_def char_after_def cs_init_def Let_def nth_append)
  show ?thesis
    using strip_csharp_opened [OF assms(1) b] assms(2)
    by (simp add: cs_init_def cs_unterminated_def cs_blanked_def)
qed


lemma strip_csharp_line_comment:
  assumes "list_all cs_plain pre" and "newline_ch \<notin> set body"
  shows "strip_csharp_comments_and_strings (pre @ ''//'' @ body) =
           Inr (pre @ ''  '' @ map blank body)"
proof -
  have b: "cs_body (pre @ ''//'' @ body) (cs_init\<lparr>cs_i := length pre, cs_result := pre\<rparr>) =
      Inr (cs_init\<lparr>cs_i := length pre + 2, cs_result := pre @ ''  '', cs_in_sl_comment := True\<rparr>)"
    by (simp add: cs_body_def char_at_def char_after_def cs_init_def Let_def nth_append)
  show ?thesis
    using strip_csharp_opened [OF assms(1) b] assms(2)
    by (simp add: cs_init_def cs_unterminated_def cs_blanked_def)
qed

lemma strip_csharp_verbatim:
  assumes "list_all cs_plain pre" and "\<not> verbatim_closed body"
  shows "strip_csharp_comments_and_strings (pre @ [CHR ''@'', dquote_ch] @ body) =
           Inr (pre @ ''  '' @ map blank body)"
proof -
  have b: "cs_body (pre @ [CHR ''@'', dquote_ch] @ body) (cs_init\<lparr>cs_i := length pre, cs_result := pre\<rparr>) =
      Inr (cs_init\<lparr>cs_i := length pre + 2, cs_result := pre @ ''  '', cs_in_verbatim_str := True\<rparr>)"
    by (simp add: cs_body_def char_at_def char_after_def cs_init_def Let_def nth_append)
  show ?thesis
    using strip_csharp_opened [OF assms(1) b] assms(2)
    by (simp add: cs_init_def cs_unterminated_def cs_blanked_def)
qed

lemma strip_csharp_string:
  assumes "list_all cs_plain pre" and "\<not> literal_closed dquote_ch body"
  shows "strip_csharp_comments_and_strings (pre @ [dquote_ch] @ body) =
           Inr (pre @ '' '' @ replicate (length body) space_ch)"
proof -
  have b: "cs_body (pre @ [dquote_ch] @ body) (cs_init\<lparr>cs_i := length pre, cs_result := pre\<rparr>) =
      Inr (cs_init\<lparr>cs_i := length pre + 1, cs_result := pre @ '' '', cs_in_str := True\<rparr>)"
    by (simp add: cs_body_def char_at_def char_after_def cs_init_def Let_def nth_append)
  show ?thesis
    using strip_csharp_opened [OF assms(1) b] assms(2)
    by (simp add: cs_init_def cs_unterminated_def cs_blanked_def)
qed

lemma strip_csharp_char:
  assumes "list_all cs_plain pre" and "\<not> literal_closed squote_ch body"
  shows "strip_csharp_comments_and_strings (pre @ [squote_ch] @ body) =
           Inr (pre @ '' '' @ replicate (length body) space_ch)"
proof -
  have b: "cs_body (pre @ [squote_ch] @ body) (cs_init\<lparr>cs_i := length pre, cs_result := pre\<rparr>) =
      Inr (cs_init\<lparr>cs_i := length pre + 1, cs_result := pre @ '' '', cs_in_char := True\<rparr>)"
    by (simp add: cs_body_def char_at_def char_after_def cs_init_def Let_def nth_append)
  show ?thesis
    using strip_csharp_opened [OF assms(1) b] assms(2)
    by (simp add: cs_init_def cs_unterminated_def cs_blanked_def)
qed

lemma strip_java_block_comment:
  assumes "list_all jv_plain pre" and "\<not> has_block_close body"
  shows "strip_java_comments_and_strings (pre @ ''/*'' @ body) =
           Inr (pre @ ''  '' @ map blank body)"
proof -
  have b: "jv_body (pre @ ''/*'' @ body) (jv_init\<lparr>jv_i := length pre, jv_result := pre\<rparr>) =
      Inr (jv_init\<lparr>jv_i := length pre + 2, jv_result := pre @ ''  '', jv_in_ml_comment := True\<rparr>)"
    by (simp add: jv_body_def char_at_def char_after_def jv_init_def Let_def nth_append)
  show ?thesis
    using strip_java_opened [OF assms(1) b] assms(2)
    by (simp add: jv_init_def jv_unterminated_def jv_blanked_def)
qed

lemma strip_java_line_comment:
  assumes "list_all jv_plain pre" and "newline_ch \<notin> set body"
  shows "strip_java_comments_and_strings (pre @ ''//'' @ body) =
           Inr (pre @ ''  '' @ map blank body)"
proof -
  have b: "jv_body (pre @ ''//'' @ body) (jv_init\<lparr>jv_i := length pre, jv_result := pre\<rparr>) =
      Inr (jv_init\<lparr>jv_i := length pre + 2, jv_result := pre @ ''  '', jv_in_sl_comment := True\<rparr>)"
    by (simp add: jv_body_def char_at_def char_after_def jv_init_def Let_def nth_append)
  show ?thesis
    using strip_java_opened [OF assms(1) b] assms(2)
    by (simp add: jv_init_def jv_unterminated_def jv_blanked_def)
qed

lemma strip_java_string:
  assumes "list_all jv_plain pre" and "\<not> literal_closed dquote_ch body"
  shows "strip_java_comments_and_strings (pre @ [dquote_ch] @ body) =
           Inr (pre @ '' '' @ replicate (length body) space_ch)"
proof -
  have b: "jv_body (pre @ [dquote_ch] @ body) (jv_init\<lparr>jv_i := length pre, jv_result := pre\<rparr>) =
      Inr (jv_init\<lparr>jv_i := length pre + 1, jv_result := pre @ '' '', jv_in_str := True\<rparr>)"
    by (simp add: jv_body_def char_at_def char_after_def jv_init_def Let_def nth_append)
  show ?thesis
    using strip_java_opened [OF assms(1) b] assms(2)
    by (simp add: jv_init_def jv_unterminated_def jv_blanked_def)
qed

lemma strip_java_char:
  assumes "list_all jv_plain pre" and "\<not> literal_closed squote_ch body"
  shows "strip_java_comments_and_strings (pre @ [squote_ch] @ body) =
           Inr (pre @ '' '' @ replicate (length body) space_ch)"
proof -
  have b: "jv_body (pre @ [squote_ch] @ body) (jv_init\<lparr>jv_i := length pre, jv_result := pre\<rparr>) =
      Inr (jv_init\<lparr>jv_i := length pre + 1, jv_result := pre @ '' '', jv_in_char := True\<rparr>)"
    by (simp add: jv_body_def char_at_def char_after_def jv_init_def Let_def nth_append)
  show ?thesis
    using strip_java_opened [OF assms(1) b] assms(2)
    by (simp add: jv_init_def jv_unterminated_def jv_blanked_def)
qed

text \<open>
  Claim C8. For every input text both sanitizers terminate and return a text, never an
  error. When the run of a sanitizer reaches a state inside a comment, a string or a
  character literal that the rest of the input does not close, its output is what was
  written up to there followed by the blanked rest. In particular, after a prefix of plain
  characters, an opener (\<open>/*\<close>, \<open>//\<close>, a double quote, a single quote, in C\# also
  \<open>@"\<close>) and a body that does not close it, the output is the prefix, spaces for the
  opener, and the blanked body.
\<close>

theorem sanitizer_total_unterminated_blanked:
  "(\<exists>out. strip_csharp_comments_and_strings code = Inr out \<and> length out = length code) \<and>
   (\<exists>out. strip_java_comments_and_strings code = Inr out \<and> length out = length code) \<and>
   (cs_iterate code k cs_init = Inr s \<and> cs_unterminated s (drop (cs_i s) code) \<longrightarrow>
      strip_csharp_comments_and_strings code =
        Inr (cs_result s @ cs_blanked s (drop (cs_i s) code))) \<and>
   (jv_iterate code k jv_init = Inr t \<and> jv_unterminated t (drop (jv_i t) code) \<longrightarrow>
      strip_java_comments_and_strings code =
        Inr (jv_result t @ jv_blanked t (drop (jv_i t) code))) \<and>
   (list_all cs_plain pre \<and> \<not> has_block_close body \<longrightarrow>
      strip_csharp_comments_and_strings (pre @ ''/*'' @ body) =
        Inr (pre @ ''  '' @ map blank body)) \<and>
   (list_all cs_plain pre \<and> newline_ch \<notin> set body \<longrightarrow>
      strip_csharp_comments_and_strings (pre @ ''//'' @ body) =
        Inr (pre @ ''  '' @ map blank body)) \<and>
   (list_all cs_plain pre \<and> \<not> verbatim_closed body \<longrightarrow>
      strip_csharp_comments_and_strings (pre @ [CHR ''@'', dquote_ch] @ body) =
        Inr (pre @ ''  '' @ map blank body)) \<and>
   (list_all cs_plain pre \<and> \<not> literal_closed dquote_ch body \<longrightarrow>
      strip_csharp_comments_and_strings (pre @ [dquote_ch] @ body) =
        Inr (pre @ '' '' @ replicate (length body) space_ch)) \<and>
   (list_all cs_plain pre \<and> \<not> literal_closed squote_ch body \<longrightarrow>
      strip_csharp_comments_and_strings (pre @ [squote_ch] @ body) =
        Inr (pre @ '' '' @ replicate (length body) space_ch)) \<and>
   (list_all jv_plain pre \<and> \<not> has_block_close body \<longrightarrow>
      strip_java_comments_and_strings (pre @ ''/*'' @ body) =
        Inr (pre @ ''  '' @ map blank body)) \<and>
   (list_all jv_plain pre \<and> newline_ch \<notin> set body \<longrightarrow>
      strip_java_comments_and_strings (pre @ ''//'' @ body) =
        Inr (pre @ ''  '' @ map blank body)) \<and>
   (list_all jv_plain pre \<and> \<not> literal_closed dquote_ch body \<longrightarrow>
      strip_java_comments_and_strings (pre @ [dquote_ch] @ body) =
        Inr (pre @ '' '' @ replicate (length body) space_ch)) \<and>
   (list_all jv_plain pre \<and> \<not> literal_closed squote_ch body \<longrightarrow>
      strip_java_comments_and_strings (pre @ [squote_ch] @ body) =
        Inr (pre @ '' '' @ replicate (length body) space_ch))"
proof -
  have "\<exists>out. strip_csharp_comments_and_strings code = Inr out \<and> length out = length code"
    using strip_csharp_pointwise [of code] by blast
  moreover have "\<exists>out. strip_java_comments_and_strings code = Inr out \<and> length out = length code"
    using strip_java_pointwise [of code] by blast
  ultimately show ?thesis
    using strip_csharp_unterminated [of code k s] strip_java_unterminated [of code k t]
      strip_csharp_block_comment [of pre body] strip_csharp_line_comment [of pre body]
      strip_csharp_verbatim [of pre body] strip_csharp_string [of pre body]
      strip_csharp_char [of pre body]
      strip_java_block_comment [of pre body] strip_java_line_comment [of pre body]
      strip_java_string [of pre body] strip_java_char [of pre body]
    by (intro conjI impI) (simp_all only: simp_thms)
qed

theorem sanitizer_total_unterminated_blanked_witness:
  "list_all jv_plain ''x'' \<and> list_all cs_plain ''x'' \<and>
   \<not> has_block_close (''a'' @ [newline_ch] @ ''b'') \<and>
   \<not> literal_closed dquote_ch (''a'' @ [newline_ch] @ ''b'') \<and>
   jv_iterate (''x/*a'' @ [newline_ch] @ ''b'') 2 jv_init =
     Inr \<lparr>jv_i = 3, jv_result = ''x  '', jv_in_sl_comment = False, jv_in_ml_comment = True,
          jv_in_str = False, jv_in_char = False\<rparr> \<and>
   strip_java_comments_and_strings (''x/*a'' @ [newline_ch] @ ''b'') =
     Inr (''x   '' @ [newline_ch] @ '' '') \<and>
   strip_csharp_comments_and_strings (''x/*a'' @ [newline_ch] @ ''b'') =
     Inr (''x   '' @ [newline_ch] @ '' '') \<and>
   strip_java_comments_and_strings (''x'' @ [dquote_ch] @ ''a'' @ [newline_ch] @ ''b'') =
     Inr ''x    '' \<and>
   strip_csharp_comments_and_strings (''x'' @ [dquote_ch] @ ''a'' @ [newline_ch] @ ''b'') =
     Inr ''x    ''"
proof -
  have i: "jv_iterate (''x/*a'' @ [newline_ch] @ ''b'') 2 jv_init =
     Inr \<lparr>jv_i = 3, jv_result = ''x  '', jv_in_sl_comment = False, jv_in_ml_comment = True,
          jv_in_str = False, jv_in_char = False\<rparr>"
    by code_simp
  have u: "jv_unterminated
     \<lparr>jv_i = 3, jv_result = ''x  '', jv_in_sl_comment = False, jv_in_ml_comment = True,
      jv_in_str = False, jv_in_char = False\<rparr>
     (drop 3 (''x/*a'' @ [newline_ch] @ ''b''))"
    by (simp add: jv_unterminated_def)
  have p: "list_all jv_plain ''x''" "list_all cs_plain ''x''"
    by (simp_all add: jv_plain_def cs_plain_def)
  have c: "\<not> has_block_close (''a'' @ [newline_ch] @ ''b'')"
    "\<not> literal_closed dquote_ch (''a'' @ [newline_ch] @ ''b'')"
    by simp_all
  show ?thesis
    using sanitizer_total_unterminated_blanked [of "''x/*a'' @ [newline_ch] @ ''b''" 2
        "cs_init" "\<lparr>jv_i = 3, jv_result = ''x  '', jv_in_sl_comment = False,
          jv_in_ml_comment = True, jv_in_str = False, jv_in_char = False\<rparr>"
        "''x''" "''a'' @ [newline_ch] @ ''b''"] i u p c
    by (simp add: jv_blanked_def blank_def)
qed

text \<open>
  Claim C1. The sanitizers are to return a text of the input's length with every newline
  of the input at its place. The length holds (\<open>strip_csharp_pointwise\<close>,
  \<open>strip_java_pointwise\<close>), and no newline is introduced; but a newline read inside a
  string or character literal is replaced by a space. On the nine characters of a text
  block, three quotes, a newline, \<open>hi\<close> and three quotes, both sanitizers return nine
  spaces: the input has a newline at offset 3 and the output has none.
\<close>

theorem sanitizer_newline_in_string_lost:
  "([dquote_ch, dquote_ch, dquote_ch, newline_ch] @ ''hi'' @ [dquote_ch, dquote_ch, dquote_ch]) ! 3
     = newline_ch \<and>
   strip_csharp_comments_and_strings
     ([dquote_ch, dquote_ch, dquote_ch, newline_ch] @ ''hi'' @ [dquote_ch, dquote_ch, dquote_ch]) =
     Inr (replicate 9 space_ch) \<and>
   strip_java_comments_and_strings
     ([dquote_ch, dquote_ch, dquote_ch, newline_ch] @ ''hi'' @ [dquote_ch, dquote_ch, dquote_ch]) =
     Inr (replicate 9 space_ch)"
  by code_simp

subsection \<open>Ownership of methods and constructors\<close>

text \<open>
  \<open>finditer\<close> yields the non-overlapping matches from left to right, and \<open>TYPE_RE\<close>
  matches no empty text: the start offsets of the type matches increase strictly. Under
  that contract sorting changes nothing, and the \<open>i\<close>-th entry of \<open>boundaries\<close> is the
  \<open>i\<close>-th type of \<open>types\<close>.
\<close>

lemma boundaries_of_sorted:
  assumes "sorted_wrt (<) (map tm_start type_ms)"
  shows "boundaries_of type_ms n =
     map (\<lambda>m. (tm_start m, Some (tm_name m))) type_ms @ [(n + 1, None)]"
proof -
  have "sorted_wrt (\<lambda>x y. tm_start x < tm_start y) type_ms"
    using assms by (simp add: sorted_wrt_map)
  then have "sorted_wrt (\<lambda>x y. (tm_start x, tm_name x) \<le> (tm_start y, tm_name y)) type_ms"
    by (rule sorted_wrt_mono_rel [rotated]) (simp add: less_eq_prod_def)
  then have "sorted (map (\<lambda>m. (tm_start m, tm_name m)) type_ms)"
    by (simp add: sorted_wrt_map)
  then have "sort (map (\<lambda>m. (tm_start m, tm_name m)) type_ms) =
      map (\<lambda>m. (tm_start m, tm_name m)) type_ms"
    by (rule sort_key_id_if_sorted [of "\<lambda>x. x", simplified])
  then show ?thesis
    by (simp add: boundaries_of_def)
qed

lemma owning_scan_find:
  "owning_scan b pos js = List.find (\<lambda>i. fst (b ! i) \<le> pos \<and> pos < fst (b ! (i + 1))) js"
  by (induction js) simp_all

lemma owning_scan_Some:
  "owning_scan b pos js = Some i \<Longrightarrow>
     i \<in> set js \<and> fst (b ! i) \<le> pos \<and> pos < fst (b ! (i + 1))"
  by (induction js) (auto split: if_splits)

lemma boundary_fst:
  assumes "i < length type_ms"
  shows "fst ((map (\<lambda>m. (tm_start m, Some (tm_name m))) type_ms @ [(n + 1, None)]) ! i) =
           tm_start (type_ms ! i)"
    and "fst ((map (\<lambda>m. (tm_start m, Some (tm_name m))) type_ms @ [(n + 1, None)]) ! (i + 1)) =
           interval_end n type_ms i"
  using assms by (auto simp: nth_append interval_end_def)

lemma interval_end_le_start:
  assumes "sorted_wrt (<) (map tm_start type_ms)" and "j < i" and "i < length type_ms"
  shows "interval_end n type_ms j \<le> tm_start (type_ms ! i)"
proof (cases "j + 1 = i")
  case True
  then show ?thesis using assms by (simp add: interval_end_def)
next
  case False
  then have "j + 1 < i" using assms(2) by simp
  then have "map tm_start type_ms ! (j + 1) < map tm_start type_ms ! i"
    using assms(1,3) by (simp add: sorted_wrt_iff_nth_less)
  then show ?thesis using assms \<open>j + 1 < i\<close> by (simp add: interval_end_def)
qed

lemma owning_type_index_interval:
  assumes "sorted_wrt (<) (map tm_start type_ms)"
  shows "owning_type_index (boundaries_of type_ms n) pos = Some i \<longleftrightarrow>
     i < length type_ms \<and> tm_start (type_ms ! i) \<le> pos \<and> pos < interval_end n type_ms i"
proof
  assume "owning_type_index (boundaries_of type_ms n) pos = Some i"
  then show "i < length type_ms \<and> tm_start (type_ms ! i) \<le> pos \<and> pos < interval_end n type_ms i"
    using owning_scan_Some [of "boundaries_of type_ms n" pos "[0..<length type_ms]" i]
      boundary_fst [of i type_ms n]
    by (auto simp: owning_type_index_def boundaries_of_sorted [OF assms])
next
  assume r: "i < length type_ms \<and> tm_start (type_ms ! i) \<le> pos \<and> pos < interval_end n type_ms i"
  let ?b = "map (\<lambda>m. (tm_start m, Some (tm_name m))) type_ms @ [(n + 1, None)]"
  let ?P = "\<lambda>i. fst (?b ! i) \<le> pos \<and> pos < fst (?b ! (i + 1))"
  have Pi: "?P i" using r boundary_fst [of i type_ms n] by simp
  have nP: "\<not> ?P j" if "j < i" for j
  proof -
    have "j < length type_ms" using that r by simp
    then have "fst (?b ! (j + 1)) = interval_end n type_ms j"
      using boundary_fst(2) [of j type_ms n] by simp
    moreover have "interval_end n type_ms j \<le> pos"
      using interval_end_le_start [OF assms that, of n] r by simp
    ultimately show ?thesis by simp
  qed
  have "List.find ?P [0..<length type_ms] = Some i"
    unfolding find_Some_iff
    using r Pi nP by (intro exI [of _ i]) auto
  then show "owning_type_index (boundaries_of type_ms n) pos = Some i"
    by (simp add: owning_type_index_def boundaries_of_sorted [OF assms] owning_scan_find)
qed

lemma foldl_add_method:
  "length (foldl (add_method b) types mms) = length types \<and>
   (\<forall>i < length types. foldl (add_method b) types mms ! i =
      (types ! i)\<lparr>ti_methods := ti_methods (types ! i) @
         map member_info_of (filter (\<lambda>mm. owning_type_index b (mm_start mm) = Some i) mms)\<rparr>)"
proof (induction mms arbitrary: types)
  case Nil
  then show ?case by simp
next
  case (Cons mm mms)
  have l: "length (add_method b types mm) = length types"
    by (simp add: add_method_def split: option.splits)
  have n: "add_method b types mm ! i =
      (types ! i)\<lparr>ti_methods := ti_methods (types ! i) @
         (if owning_type_index b (mm_start mm) = Some i then [member_info_of mm] else [])\<rparr>"
    if "i < length types" for i
    using that by (auto simp: add_method_def nth_list_update split: option.splits)
  show ?case
    using Cons.IH [of "add_method b types mm"] l n by simp
qed

lemma foldl_add_constructor:
  "length (foldl (add_constructor b) types mcs) = length types \<and>
   (\<forall>i < length types. foldl (add_constructor b) types mcs ! i =
      (types ! i)\<lparr>ti_constructors := ti_constructors (types ! i) @
         map member_info_of (filter (\<lambda>mc. owning_type_index b (mm_start mc) = Some i \<and>
            mm_name mc = ti_name (types ! i)) mcs)\<rparr>)"
proof (induction mcs arbitrary: types)
  case Nil
  then show ?case by simp
next
  case (Cons mc mcs)
  have l: "length (add_constructor b types mc) = length types"
    by (simp add: add_constructor_def split: option.splits)
  have n: "add_constructor b types mc ! i =
      (types ! i)\<lparr>ti_constructors := ti_constructors (types ! i) @
         (if owning_type_index b (mm_start mc) = Some i \<and> mm_name mc = ti_name (types ! i)
          then [member_info_of mc] else [])\<rparr>"
    if "i < length types" for i
    using that by (auto simp: add_constructor_def nth_list_update split: option.splits)
  show ?case
    using Cons.IH [of "add_constructor b types mc"] l n by simp
qed

lemma parse_csharp_file_nth:
  assumes "i < length type_ms"
  shows "length (parse_csharp_file n type_ms method_ms ctor_ms) = length type_ms"
    and "parse_csharp_file n type_ms method_ms ctor_ms ! i =
     \<lparr>ti_kind = tm_kind (type_ms ! i), ti_name = tm_name (type_ms ! i),
      ti_methods = map member_info_of
        (filter (\<lambda>mm. owning_type_index (boundaries_of type_ms n) (mm_start mm) = Some i) method_ms),
      ti_constructors = map member_info_of
        (filter (\<lambda>mc. owning_type_index (boundaries_of type_ms n) (mm_start mc) = Some i \<and>
            mm_name mc = tm_name (type_ms ! i)) ctor_ms)\<rparr>"
proof -
  let ?b = "boundaries_of type_ms n"
  let ?t0 = "map type_info_of type_ms"
  let ?t1 = "foldl (add_method ?b) ?t0 method_ms"
  have ne: "type_ms \<noteq> []" using assms by auto
  have p: "parse_csharp_file n type_ms method_ms ctor_ms = foldl (add_constructor ?b) ?t1 ctor_ms"
    using ne by (simp add: parse_csharp_file_def Let_def)
  have l1: "length ?t1 = length type_ms"
    using foldl_add_method [of ?b ?t0 method_ms] by simp
  have n1: "?t1 ! i = (?t0 ! i)\<lparr>ti_methods := ti_methods (?t0 ! i) @
         map member_info_of (filter (\<lambda>mm. owning_type_index ?b (mm_start mm) = Some i) method_ms)\<rparr>"
    using foldl_add_method [of ?b ?t0 method_ms] assms by simp
  show "length (parse_csharp_file n type_ms method_ms ctor_ms) = length type_ms"
    using foldl_add_constructor [of ?b ?t1 ctor_ms] l1 p by simp
  have "foldl (add_constructor ?b) ?t1 ctor_ms ! i =
      (?t1 ! i)\<lparr>ti_constructors := ti_constructors (?t1 ! i) @
         map member_info_of (filter (\<lambda>mc. owning_type_index ?b (mm_start mc) = Some i \<and>
            mm_name mc = ti_name (?t1 ! i)) ctor_ms)\<rparr>"
    using foldl_add_constructor [of ?b ?t1 ctor_ms] l1 assms by simp
  then show "parse_csharp_file n type_ms method_ms ctor_ms ! i =
     \<lparr>ti_kind = tm_kind (type_ms ! i), ti_name = tm_name (type_ms ! i),
      ti_methods = map member_info_of
        (filter (\<lambda>mm. owning_type_index (boundaries_of type_ms n) (mm_start mm) = Some i) method_ms),
      ti_constructors = map member_info_of
        (filter (\<lambda>mc. owning_type_index (boundaries_of type_ms n) (mm_start mc) = Some i \<and>
            mm_name mc = tm_name (type_ms ! i)) ctor_ms)\<rparr>"
    using p n1 assms by (simp add: type_info_of_def)
qed

lemma parse_java_file_eq: "parse_java_file = parse_csharp_file"
  by (intro ext) (simp add: parse_java_file_def parse_csharp_file_def)

text \<open>
  Claim C2. With the type matches in the order of \<open>finditer\<close>, \<open>owning_type_index\<close>
  returns \<open>i\<close> exactly for the offsets of the half-open interval from the start of the
  \<open>i\<close>-th type to the start of the next one (the sentinel \<open>n + 1\<close> for the last), and the
  methods of the \<open>i\<close>-th type in the result of either parser are the method matches of
  that interval, in their order. With two sibling types, a method match at or after the
  second header is in the second interval, so it goes to the second type and not to the
  first.
\<close>

theorem method_owned_by_interval:
  assumes "sorted_wrt (<) (map tm_start type_ms)" and "i < length type_ms"
  shows "(owning_type_index (boundaries_of type_ms n) pos = Some k \<longleftrightarrow>
            k < length type_ms \<and> tm_start (type_ms ! k) \<le> pos \<and>
            pos < interval_end n type_ms k) \<and>
         ti_name (parse_csharp_file n type_ms method_ms ctor_ms ! i) = tm_name (type_ms ! i) \<and>
         ti_methods (parse_csharp_file n type_ms method_ms ctor_ms ! i) =
           map member_info_of
             (filter (\<lambda>mm. tm_start (type_ms ! i) \<le> mm_start mm \<and>
                           mm_start mm < interval_end n type_ms i) method_ms) \<and>
         ti_name (parse_java_file n type_ms method_ms ctor_ms ! i) = tm_name (type_ms ! i) \<and>
         ti_methods (parse_java_file n type_ms method_ms ctor_ms ! i) =
           map member_info_of
             (filter (\<lambda>mm. tm_start (type_ms ! i) \<le> mm_start mm \<and>
                           mm_start mm < interval_end n type_ms i) method_ms)"
proof -
  have f: "filter (\<lambda>mm. owning_type_index (boundaries_of type_ms n) (mm_start mm) = Some i)
             method_ms =
           filter (\<lambda>mm. tm_start (type_ms ! i) \<le> mm_start mm \<and>
                         mm_start mm < interval_end n type_ms i) method_ms"
    using assms(2) by (simp add: owning_type_index_interval [OF assms(1)])
  show ?thesis
    using owning_type_index_interval [OF assms(1), of n pos k]
      parse_csharp_file_nth(2) [OF assms(2), of n method_ms ctor_ms] f
    by (simp add: parse_java_file_eq)
qed

theorem method_owned_by_interval_witness:
  "sorted_wrt (<) (map tm_start
     [\<lparr>tm_start = 0, tm_kind = ''class'', tm_name = ''A''\<rparr>,
      \<lparr>tm_start = 20, tm_kind = ''class'', tm_name = ''B''\<rparr>]) \<and>
   map mi_name (ti_methods (parse_csharp_file 40
     [\<lparr>tm_start = 0, tm_kind = ''class'', tm_name = ''A''\<rparr>,
      \<lparr>tm_start = 20, tm_kind = ''class'', tm_name = ''B''\<rparr>]
     [\<lparr>mm_start = 10, mm_name = ''f'', mm_params = ''int x''\<rparr>,
      \<lparr>mm_start = 20, mm_name = ''g'', mm_params = []\<rparr>,
      \<lparr>mm_start = 30, mm_name = ''h'', mm_params = []\<rparr>] [] ! 1)) = [''g'', ''h''] \<and>
   ti_name (parse_csharp_file 40
     [\<lparr>tm_start = 0, tm_kind = ''class'', tm_name = ''A''\<rparr>,
      \<lparr>tm_start = 20, tm_kind = ''class'', tm_name = ''B''\<rparr>]
     [\<lparr>mm_start = 10, mm_name = ''f'', mm_params = ''int x''\<rparr>,
      \<lparr>mm_start = 20, mm_name = ''g'', mm_params = []\<rparr>,
      \<lparr>mm_start = 30, mm_name = ''h'', mm_params = []\<rparr>] [] ! 1) = ''B''"
proof -
  have s: "sorted_wrt (<) (map tm_start
     [\<lparr>tm_start = 0, tm_kind = ''class'', tm_name = ''A''\<rparr>,
      \<lparr>tm_start = 20, tm_kind = ''class'', tm_name = ''B''\<rparr>])"
    by simp
  have i: "1 < length
     [\<lparr>tm_start = 0, tm_kind = ''class'', tm_name = ''A''\<rparr>,
      \<lparr>tm_start = 20, tm_kind = ''class'', tm_name = ''B''\<rparr>]"
    by simp
  show ?thesis
    using method_owned_by_interval [OF s i, of 40 0 0
      "[\<lparr>mm_start = 10, mm_name = ''f'', mm_params = ''int x''\<rparr>,
        \<lparr>mm_start = 20, mm_name = ''g'', mm_params = []\<rparr>,
        \<lparr>mm_start = 30, mm_name = ''h'', mm_params = []\<rparr>]" "[]"]
    by (simp add: interval_end_def member_info_of_def)
qed

text \<open>
  Claim C3. In the result of either parser every constructor record of a type has that
  type's name; the constructors of the \<open>i\<close>-th type are exactly the constructor-shaped
  matches that \<open>owning_type_index\<close> gives to \<open>i\<close> and whose name is the name of the
  \<open>i\<close>-th type, so a match with another name is left out.
\<close>

theorem constructors_named_after_owner:
  "(\<forall>t \<in> set (parse_csharp_file n type_ms method_ms ctor_ms).
      \<forall>c \<in> set (ti_constructors t). mi_name c = ti_name t) \<and>
   (\<forall>t \<in> set (parse_java_file n type_ms method_ms ctor_ms).
      \<forall>c \<in> set (ti_constructors t). mi_name c = ti_name t) \<and>
   (i < length type_ms \<longrightarrow>
      ti_constructors (parse_csharp_file n type_ms method_ms ctor_ms ! i) =
        map member_info_of
          (filter (\<lambda>mc. owning_type_index (boundaries_of type_ms n) (mm_start mc) = Some i \<and>
                        mm_name mc = tm_name (type_ms ! i)) ctor_ms) \<and>
      ti_constructors (parse_java_file n type_ms method_ms ctor_ms ! i) =
        map member_info_of
          (filter (\<lambda>mc. owning_type_index (boundaries_of type_ms n) (mm_start mc) = Some i \<and>
                        mm_name mc = tm_name (type_ms ! i)) ctor_ms))"
proof -
  have a: "mi_name c = ti_name t"
    if "t \<in> set (parse_csharp_file n type_ms method_ms ctor_ms)" and "c \<in> set (ti_constructors t)"
    for t c
  proof (cases "type_ms = []")
    case True
    then show ?thesis using that by (simp add: parse_csharp_file_def)
  next
    case False
    then have "0 < length type_ms" by simp
    from parse_csharp_file_nth(1) [OF this, of n method_ms ctor_ms] that(1)
    obtain j where j: "j < length type_ms"
      and t: "t = parse_csharp_file n type_ms method_ms ctor_ms ! j"
      by (auto simp: in_set_conv_nth)
    show ?thesis
      using that(2) unfolding t parse_csharp_file_nth(2) [OF j]
      by (auto simp: member_info_of_def)
  qed
  show ?thesis
    using a parse_csharp_file_nth(2) [of i type_ms n method_ms ctor_ms]
    by (simp add: parse_java_file_eq)
qed

theorem constructors_named_after_owner_witness:
  "map mi_name (ti_constructors (parse_csharp_file 30
     [\<lparr>tm_start = 0, tm_kind = ''class'', tm_name = ''Baz''\<rparr>] []
     [\<lparr>mm_start = 10, mm_name = ''Bar'', mm_params = []\<rparr>,
      \<lparr>mm_start = 20, mm_name = ''Baz'', mm_params = ''int x''\<rparr>] ! 0)) = [''Baz''] \<and>
   list_all (\<lambda>t. list_all (\<lambda>c. mi_name c = ti_name t) (ti_constructors t))
     (parse_java_file 30
       [\<lparr>tm_start = 0, tm_kind = ''class'', tm_name = ''Baz''\<rparr>] []
       [\<lparr>mm_start = 10, mm_name = ''Bar'', mm_params = []\<rparr>,
        \<lparr>mm_start = 20, mm_name = ''Baz'', mm_params = ''int x''\<rparr>])"
proof -
  have o: "owning_type_index
      (boundaries_of [\<lparr>tm_start = 0, tm_kind = ''class'', tm_name = ''Baz''\<rparr>] 30) p = Some 0"
    if "p < 31" for p
    using that by (simp add: owning_type_index_def boundaries_of_def)
  show ?thesis
    using constructors_named_after_owner [of 30
      "[\<lparr>tm_start = 0, tm_kind = ''class'', tm_name = ''Baz''\<rparr>]" "[]"
      "[\<lparr>mm_start = 10, mm_name = ''Bar'', mm_params = []\<rparr>,
        \<lparr>mm_start = 20, mm_name = ''Baz'', mm_params = ''int x''\<rparr>]" 0]
    by (simp add: o member_info_of_def list_all_iff)
qed

subsection \<open>The Maven dependency edges\<close>

lemma foldl_append_each: "foldl (\<lambda>acc x. acc @ [f x]) acc xs = acc @ map f xs"
  by (induction xs arbitrary: acc) simp_all

lemma gav_key_nonempty: "gav_key g a v = Some k \<Longrightarrow> k \<noteq> []"
  by (auto simp: gav_key_def split: option.splits if_splits)

lemma ga_key_nonempty: "ga_key g a = Some k \<Longrightarrow> k \<noteq> []"
  by (auto simp: ga_key_def split: option.splits if_splits)

lemma dependency_step_eq:
  "dependency_step by_gav by_ga acc p = acc @ dependency_edges_of by_gav by_ga p"
  by (auto simp: dependency_step_def dependency_edges_of_def foldl_append_each
      dest: gav_key_nonempty split: option.splits)

lemma foldl_dependency_step:
  "foldl (dependency_step by_gav by_ga) acc ps =
     acc @ concat (map (dependency_edges_of by_gav by_ga) ps)"
  by (induction ps arbitrary: acc) (simp_all add: dependency_step_eq)

lemma index_projects_snoc:
  "index_projects (ps @ [p]) = index_step (index_projects ps) p"
  by (simp add: index_projects_def)

lemma index_by_gav:
  "fst (index_projects ps) k =
     (if filter (\<lambda>q. project_gav q = Some k) ps = [] then None
      else Some (last (filter (\<lambda>q. project_gav q = Some k) ps)))"
proof (induction ps rule: rev_induct)
  case Nil
  then show ?case by (simp add: index_projects_def)
next
  case (snoc p ps)
  then show ?case
    by (auto simp: index_projects_snoc index_step_def Let_def dest: gav_key_nonempty
        split: option.splits)
qed

lemma index_by_ga:
  "snd (index_projects ps) k =
     (if filter (\<lambda>q. project_ga q = Some k) ps = [] then None
      else Some (last (filter (\<lambda>q. project_ga q = Some k) ps)))"
proof (induction ps rule: rev_induct)
  case Nil
  then show ?case by (simp add: index_projects_def)
next
  case (snoc p ps)
  then show ?case
    by (auto simp: index_projects_snoc index_step_def Let_def dest: ga_key_nonempty
        split: option.splits)
qed

lemma maven_dependencies_eq:
  "mg_dependencies (maven_build_graph resolve join ps) =
     concat (map (dependency_edges_of (fst (index_projects ps)) (snd (index_projects ps))) ps)"
  by (simp add: maven_build_graph_def Let_def foldl_dependency_step)






lemma dependency_target_cong:
  assumes "\<And>k. (by_gav k = None) = (by_gav' k = None)"
    and "\<And>k. map_option project_gav (by_ga k) = map_option project_gav (by_ga' k)"
  shows "dependency_target by_gav by_ga d = dependency_target by_gav' by_ga' d"
proof -
  have g: "(lookup_truthy (dep_gav d) by_gav = None) = (lookup_truthy (dep_gav d) by_gav' = None)"
    using assms(1) by (simp add: lookup_truthy_def split: option.splits)
  have a: "map_option project_gav (lookup_truthy (dep_ga d) by_ga) =
           map_option project_gav (lookup_truthy (dep_ga d) by_ga')"
    using assms(2) by (simp add: lookup_truthy_def split: option.splits)
  show ?thesis
  proof (cases "lookup_truthy (dep_gav d) by_gav")
    case None
    then have n': "lookup_truthy (dep_gav d) by_gav' = None" using g by simp
    show ?thesis
    proof (cases "lookup_truthy (dep_ga d) by_ga")
      case None
      then have "lookup_truthy (dep_ga d) by_ga' = None" using a by simp
      then show ?thesis using None \<open>lookup_truthy (dep_gav d) by_gav = None\<close> n'
        by (simp add: dependency_target_def)
    next
      case (Some tgt)
      then obtain tgt' where "lookup_truthy (dep_ga d) by_ga' = Some tgt'"
        and "project_gav tgt' = project_gav tgt"
        using a by (cases "lookup_truthy (dep_ga d) by_ga'") auto
      then show ?thesis using Some \<open>lookup_truthy (dep_gav d) by_gav = None\<close> n'
        by (simp add: dependency_target_def)
    qed
  next
    case (Some x)
    then obtain y where "lookup_truthy (dep_gav d) by_gav' = Some y"
      using g by (cases "lookup_truthy (dep_gav d) by_gav'") auto
    then show ?thesis using Some by (simp add: dependency_target_def)
  qed
qed

lemma index_ignores_dependencies:
  assumes "project_gav p = None"
  shows "(fst (index_projects (ps1 @ p # ps2)) k = None) =
         (fst (index_projects (ps1 @ p\<lparr>mp_dependencies := ds\<rparr> # ps2)) k = None)"
    and "map_option project_gav (snd (index_projects (ps1 @ p # ps2)) k) =
         map_option project_gav (snd (index_projects (ps1 @ p\<lparr>mp_dependencies := ds\<rparr> # ps2)) k)"
  using assms by (auto simp: index_by_gav index_by_ga)

lemma dependency_edges_of_cong:
  assumes "\<And>d. dependency_target by_gav by_ga d = dependency_target by_gav' by_ga' d"
  shows "dependency_edges_of by_gav by_ga q = dependency_edges_of by_gav' by_ga' q"
  using assms by (simp add: dependency_edges_of_def split: option.splits)

lemma maven_no_identity_independent:
  assumes "project_gav p = None"
  shows "mg_dependencies (maven_build_graph resolve join (ps1 @ p # ps2)) =
         mg_dependencies (maven_build_graph resolve join (ps1 @ p\<lparr>mp_dependencies := ds\<rparr> # ps2))"
proof -
  let ?ps = "ps1 @ p # ps2" and ?ps' = "ps1 @ p\<lparr>mp_dependencies := ds\<rparr> # ps2"
  have t: "dependency_target (fst (index_projects ?ps)) (snd (index_projects ?ps)) d =
           dependency_target (fst (index_projects ?ps')) (snd (index_projects ?ps')) d" for d
    by (rule dependency_target_cong) (rule index_ignores_dependencies [OF assms])+
  have e: "dependency_edges_of (fst (index_projects ?ps)) (snd (index_projects ?ps)) q =
           dependency_edges_of (fst (index_projects ?ps')) (snd (index_projects ?ps')) q" for q
    by (rule dependency_edges_of_cong) (rule t)
  have z: "dependency_edges_of g a p = []" "dependency_edges_of g a (p\<lparr>mp_dependencies := ds\<rparr>) = []"
    for g a
    using assms by (simp_all add: dependency_edges_of_def)
  have e': "dependency_edges_of (fst (index_projects ?ps)) (snd (index_projects ?ps)) =
            dependency_edges_of (fst (index_projects ?ps')) (snd (index_projects ?ps'))"
    by (rule ext) (rule e)
  show ?thesis
    by (simp add: maven_dependencies_eq z) (simp add: e')
qed




text \<open>
  Claim C10. A project whose \<open>groupId\<close>, \<open>artifactId\<close> or \<open>version\<close> is missing has no
  \<open>group:artifact:version\<close> identity, and the dependency edges of the graph do not depend
  on the dependencies of a project without identity: whatever they are replaced by (by
  none, for one), the edge list is the same. None of them produces an edge.
\<close>

theorem maven_no_identity_no_edges:
  "(mp_groupId p = None \<or> mp_artifactId p = None \<or> mp_version p = None \<longrightarrow>
      project_gav p = None) \<and>
   (project_gav p = None \<longrightarrow>
      dependency_step by_gav by_ga acc p = acc \<and>
      mg_dependencies (maven_build_graph resolve join (ps1 @ p # ps2)) =
      mg_dependencies (maven_build_graph resolve join (ps1 @ p\<lparr>mp_dependencies := ds\<rparr> # ps2)))"
proof -
  have "project_gav p = None"
    if "mp_groupId p = None \<or> mp_artifactId p = None \<or> mp_version p = None"
    using that by (auto simp: gav_key_def split: option.splits)
  moreover have "dependency_step by_gav by_ga acc p = acc" if "project_gav p = None"
    using that by (simp add: dependency_step_def)
  ultimately show ?thesis
    using maven_no_identity_independent [of p resolve join ps1 ps2 ds] by blast
qed

theorem maven_no_identity_no_edges_witness:
  "mp_version \<lparr>mp_pom_path = ''/r/app/pom.xml'', mp_dir = ''/r/app'', mp_groupId = Some ''g'',
       mp_artifactId = Some ''app'', mp_version = None, mp_parent = None, mp_modules = [],
       mp_dependencies = [pom_dependency (Some ''org'') (Some ''ext'') (Some ''3.0'') None]\<rparr> = None \<and>
   mg_dependencies (maven_build_graph (\<lambda>x. x) (\<lambda>a b. a @ ''/'' @ b)
     ([] @
      \<lparr>mp_pom_path = ''/r/app/pom.xml'', mp_dir = ''/r/app'', mp_groupId = Some ''g'',
       mp_artifactId = Some ''app'', mp_version = None, mp_parent = None, mp_modules = [],
       mp_dependencies = [pom_dependency (Some ''org'') (Some ''ext'') (Some ''3.0'') None]\<rparr> #
      [\<lparr>mp_pom_path = ''/r/web/pom.xml'', mp_dir = ''/r/web'', mp_groupId = Some ''g'',
        mp_artifactId = Some ''web'', mp_version = Some ''1.0'', mp_parent = None,
        mp_modules = [],
        mp_dependencies = [pom_dependency (Some ''org'') (Some ''lib'') (Some ''2.0'') None]\<rparr>])) =
     [\<lparr>de_from = ''g:web:1.0'', de_to = Some ''org:lib'', de_scope = ''compile''\<rparr>]"
proof -
  have e: "mg_dependencies (maven_build_graph (\<lambda>x. x) (\<lambda>a b. a @ ''/'' @ b)
     ([] @
      \<lparr>mp_pom_path = ''/r/app/pom.xml'', mp_dir = ''/r/app'', mp_groupId = Some ''g'',
       mp_artifactId = Some ''app'', mp_version = None, mp_parent = None, mp_modules = [],
       mp_dependencies = [pom_dependency (Some ''org'') (Some ''ext'') (Some ''3.0'') None]\<rparr>
        \<lparr>mp_dependencies := []\<rparr> #
      [\<lparr>mp_pom_path = ''/r/web/pom.xml'', mp_dir = ''/r/web'', mp_groupId = Some ''g'',
        mp_artifactId = Some ''web'', mp_version = Some ''1.0'', mp_parent = None,
        mp_modules = [],
        mp_dependencies = [pom_dependency (Some ''org'') (Some ''lib'') (Some ''2.0'') None]\<rparr>])) =
     [\<lparr>de_from = ''g:web:1.0'', de_to = Some ''org:lib'', de_scope = ''compile''\<rparr>]"
    by code_simp
  show ?thesis
    using maven_no_identity_no_edges [of
      "\<lparr>mp_pom_path = ''/r/app/pom.xml'', mp_dir = ''/r/app'', mp_groupId = Some ''g'',
       mp_artifactId = Some ''app'', mp_version = None, mp_parent = None, mp_modules = [],
       mp_dependencies = [pom_dependency (Some ''org'') (Some ''ext'') (Some ''3.0'') None]\<rparr>"
      Map.empty Map.empty "[]" "\<lambda>x. x" "\<lambda>a b. a @ ''/'' @ b" "[]"
      "[\<lparr>mp_pom_path = ''/r/web/pom.xml'', mp_dir = ''/r/web'', mp_groupId = Some ''g'',
        mp_artifactId = Some ''web'', mp_version = Some ''1.0'', mp_parent = None,
        mp_modules = [],
        mp_dependencies = [pom_dependency (Some ''org'') (Some ''lib'') (Some ''2.0'') None]\<rparr>]"
      "[]"] e
    by simp
qed

subsection \<open>The .NET project-reference edges\<close>



















subsection \<open>The property groups of a descriptor\<close>

lemma props_step_lookup:
  "props_step props c t =
     (case props t of Some v \<Rightarrow> Some v | None \<Rightarrow> field_value t c)"
  by (auto simp: props_step_def field_value_def truthy_def split: option.splits)

lemma foldl_props_step:
  "foldl props_step props cs t =
     (case props t of Some v \<Rightarrow> Some v | None \<Rightarrow> first_defined (map (field_value t) cs))"
proof (induction cs arbitrary: props)
  case Nil
  then show ?case by (simp split: option.splits)
next
  case (Cons c cs)
  show ?case
    using Cons [of "props_step props c"] props_step_lookup [of props c t]
    by (cases "props t"; cases "field_value t c") simp_all
qed

lemma foldl_property_groups:
  "foldl (\<lambda>props pg. foldl props_step props (xml_children pg)) props gs t =
     (case props t of Some v \<Rightarrow> Some v
      | None \<Rightarrow> first_defined (map (group_value t) gs))"
proof (induction gs arbitrary: props)
  case Nil
  then show ?case by (simp split: option.splits)
next
  case (Cons g gs)
  show ?case
    using Cons [of "foldl props_step props (xml_children g)"]
      foldl_props_step [of props "xml_children g" t]
    by (cases "props t"; cases "group_value t g") (simp_all add: group_value_def)
qed

text \<open>A field of \<open>props\<close> is the first value a property group gives it, in document order.\<close>

lemma collect_props_first:
  "collect_props root t = first_defined (map (group_value t) (findall root ''PropertyGroup''))"
  by (simp add: collect_props_def foldl_property_groups)

lemma first_defined_skip:
  assumes "\<forall>x \<in> set xs. f x = None"
  shows "first_defined (map f (xs @ ys)) = first_defined (map f ys)"
  using assms by (induction xs) simp_all

text \<open>
  Claim C6, as the code has it. When a property group gives a field a value (the text of
  the element is not empty after trimming) and no earlier group does, the parsed
  descriptor keeps that value, whatever the later groups hold: they never override it.
  An element whose text is empty defines nothing.
\<close>

theorem first_property_group_value_kept:
  "findall (strip_namespaces parsed) ''PropertyGroup'' = gs1 @ g # gs2 \<and>
   (\<forall>g' \<in> set gs1. group_value t g' = None) \<and> group_value t g = Some v \<longrightarrow>
     collect_props (strip_namespaces parsed) t = Some v \<and>
     (t = ''AssemblyName'' \<longrightarrow> dp_assembly_name (parse_csproj path dir parsed) = Some v) \<and>
     (t = ''RootNamespace'' \<longrightarrow> dp_root_namespace (parse_csproj path dir parsed) = Some v) \<and>
     (t = ''OutputType'' \<longrightarrow> dp_output_type (parse_csproj path dir parsed) = Some v)"
proof
  assume a: "findall (strip_namespaces parsed) ''PropertyGroup'' = gs1 @ g # gs2 \<and>
   (\<forall>g' \<in> set gs1. group_value t g' = None) \<and> group_value t g = Some v"
  then have "first_defined (map (group_value t) (gs1 @ g # gs2)) = Some v"
    using first_defined_skip [of gs1 "group_value t" "g # gs2"] by simp
  then have "collect_props (strip_namespaces parsed) t = Some v"
    using a by (simp add: collect_props_first)
  then show "collect_props (strip_namespaces parsed) t = Some v \<and>
     (t = ''AssemblyName'' \<longrightarrow> dp_assembly_name (parse_csproj path dir parsed) = Some v) \<and>
     (t = ''RootNamespace'' \<longrightarrow> dp_root_namespace (parse_csproj path dir parsed) = Some v) \<and>
     (t = ''OutputType'' \<longrightarrow> dp_output_type (parse_csproj path dir parsed) = Some v)"
    by (auto simp: parse_csproj_def Let_def)
qed

theorem first_property_group_value_kept_witness:
  "findall (strip_namespaces
     (Element ''{http://schemas.microsoft.com/developer/msbuild/2003}Project'' [] None
       [Element ''{http://schemas.microsoft.com/developer/msbuild/2003}PropertyGroup'' [] None
          [Element ''{http://schemas.microsoft.com/developer/msbuild/2003}OutputType'' [] (Some ''Exe'') []],
        Element ''{http://schemas.microsoft.com/developer/msbuild/2003}PropertyGroup'' [] None
          [Element ''{http://schemas.microsoft.com/developer/msbuild/2003}OutputType'' [] (Some ''Library'') []]]))
     ''PropertyGroup'' =
     [] @ Element ''PropertyGroup'' [] None [Element ''OutputType'' [] (Some ''Exe'') []] #
     [Element ''PropertyGroup'' [] None [Element ''OutputType'' [] (Some ''Library'') []]] \<and>
   group_value ''OutputType''
     (Element ''PropertyGroup'' [] None [Element ''OutputType'' [] (Some ''Exe'') []]) = Some ''Exe'' \<and>
   dp_output_type (parse_csproj ''/r/A/A.csproj'' ''/r/A''
     (Element ''{http://schemas.microsoft.com/developer/msbuild/2003}Project'' [] None
       [Element ''{http://schemas.microsoft.com/developer/msbuild/2003}PropertyGroup'' [] None
          [Element ''{http://schemas.microsoft.com/developer/msbuild/2003}OutputType'' [] (Some ''Exe'') []],
        Element ''{http://schemas.microsoft.com/developer/msbuild/2003}PropertyGroup'' [] None
          [Element ''{http://schemas.microsoft.com/developer/msbuild/2003}OutputType'' [] (Some ''Library'') []]])) =
     Some ''Exe''"
proof -
  have f: "findall (strip_namespaces
     (Element ''{http://schemas.microsoft.com/developer/msbuild/2003}Project'' [] None
       [Element ''{http://schemas.microsoft.com/developer/msbuild/2003}PropertyGroup'' [] None
          [Element ''{http://schemas.microsoft.com/developer/msbuild/2003}OutputType'' [] (Some ''Exe'') []],
        Element ''{http://schemas.microsoft.com/developer/msbuild/2003}PropertyGroup'' [] None
          [Element ''{http://schemas.microsoft.com/developer/msbuild/2003}OutputType'' [] (Some ''Library'') []]]))
     ''PropertyGroup'' =
     [] @ Element ''PropertyGroup'' [] None [Element ''OutputType'' [] (Some ''Exe'') []] #
     [Element ''PropertyGroup'' [] None [Element ''OutputType'' [] (Some ''Library'') []]]"
    by code_simp
  have g: "group_value ''OutputType''
     (Element ''PropertyGroup'' [] None [Element ''OutputType'' [] (Some ''Exe'') []]) = Some ''Exe''"
    by code_simp
  show ?thesis
    using first_property_group_value_kept [of
      "Element ''{http://schemas.microsoft.com/developer/msbuild/2003}Project'' [] None
       [Element ''{http://schemas.microsoft.com/developer/msbuild/2003}PropertyGroup'' [] None
          [Element ''{http://schemas.microsoft.com/developer/msbuild/2003}OutputType'' [] (Some ''Exe'') []],
        Element ''{http://schemas.microsoft.com/developer/msbuild/2003}PropertyGroup'' [] None
          [Element ''{http://schemas.microsoft.com/developer/msbuild/2003}OutputType'' [] (Some ''Library'') []]]"
      "[]" "Element ''PropertyGroup'' [] None [Element ''OutputType'' [] (Some ''Exe'') []]"
      "[Element ''PropertyGroup'' [] None [Element ''OutputType'' [] (Some ''Library'') []]]"
      "''OutputType''" "''Exe''" "''/r/A/A.csproj''" "''/r/A''"] f g
    by simp
qed

text \<open>
  The claim as stated has the first group that names the field win. Here both groups hold
  an \<open>OutputType\<close> element, the first one empty, and the descriptor has the value of the
  second group.
\<close>

theorem empty_first_group_value_not_kept:
  "map (map xml_tag \<circ> xml_children) (findall
     (Element ''Project'' [] None
       [Element ''PropertyGroup'' [] None [Element ''OutputType'' [] None []],
        Element ''PropertyGroup'' [] None [Element ''OutputType'' [] (Some ''Exe'') []]])
     ''PropertyGroup'') = [[''OutputType''], [''OutputType'']] \<and>
   dp_output_type (parse_csproj ''/r/A/A.csproj'' ''/r/A''
     (Element ''Project'' [] None
       [Element ''PropertyGroup'' [] None [Element ''OutputType'' [] None []],
        Element ''PropertyGroup'' [] None [Element ''OutputType'' [] (Some ''Exe'') []]])) =
     Some ''Exe''"
  by code_simp

subsection \<open>The source aggregators and a file that cannot be scanned\<close>

lemma foldl_cs_file_step:
  "foldl (cs_file_step str_of parse) st found =
     foldl cs_add_summary st
       (map (cs_summary_of str_of parse)
          (filter (\<lambda>cs. \<not> (''obj'' \<in> set cs \<or> ''bin'' \<in> set cs)) found))"
  by (induction found arbitrary: st) (simp_all add: cs_file_step_def)

lemma cs_add_summary_state:
  "ca_files (cs_add_summary st s) = ca_files st @ [s]"
  "types_under (ca_namespaces (cs_add_summary st s)) ns =
     types_under (ca_namespaces st) ns @ (if cs_key s = ns then cs_types s else [])"
  "files_under (ca_namespaces (cs_add_summary st s)) ns =
     files_under (ca_namespaces st) ns @ (if cs_key s = ns then [cs_path s] else [])"
  by (auto simp: cs_add_summary_def cs_key_def types_under_def files_under_def Let_def
      split: option.splits)

lemma foldl_cs_add_summary:
  "ca_files (foldl cs_add_summary st ss) = ca_files st @ ss \<and>
   types_under (ca_namespaces (foldl cs_add_summary st ss)) ns =
     types_under (ca_namespaces st) ns @
     concat (map cs_types (filter (\<lambda>s. cs_key s = ns) ss)) \<and>
   files_under (ca_namespaces (foldl cs_add_summary st ss)) ns =
     files_under (ca_namespaces st) ns @ map cs_path (filter (\<lambda>s. cs_key s = ns) ss)"
proof (induction ss arbitrary: st)
  case Nil
  then show ?case by simp
next
  case (Cons s ss)
  show ?case
    using Cons [of "cs_add_summary st s"] by (simp add: cs_add_summary_state)
qed


lemma cs_aggregate_sources_eq:
  "cs_aggregate_sources str_of parse found =
     foldl cs_add_summary \<lparr>ca_namespaces = Map.empty, ca_files = []\<rparr>
       (map (cs_summary_of str_of parse)
          (filter (\<lambda>cs. \<not> (''obj'' \<in> set cs \<or> ''bin'' \<in> set cs)) found))"
  by (simp add: cs_aggregate_sources_def foldl_cs_file_step)

lemma foldl_jv_dir_step:
  "foldl (jv_dir_step str_of parse) st src_dirs =
     foldl jv_add_summary st (map (jv_summary_of str_of parse) (scanned_files src_dirs))"
proof (induction src_dirs arbitrary: st)
  case Nil
  then show ?case by (simp add: scanned_files_def)
next
  case (Cons d ds)
  have m: "foldl (\<lambda>st fp. jv_add_summary st (jv_summary_of str_of parse fp)) st found =
           foldl jv_add_summary st (map (jv_summary_of str_of parse) found)" for st found
    by (induction found arbitrary: st) simp_all
  show ?case
    using Cons [of "jv_dir_step str_of parse st d"]
    by (cases d) (simp_all add: jv_dir_step_def scanned_files_def m)
qed

lemma jv_add_summary_state:
  "ja_files (jv_add_summary st s) = ja_files st @ [s]"
  "types_under (ja_packages (jv_add_summary st s)) ns =
     types_under (ja_packages st) ns @
     (if jv_key s = ns then (case jv_types s of None \<Rightarrow> [] | Some ts \<Rightarrow> ts) else [])"
  "files_under (ja_packages (jv_add_summary st s)) ns =
     files_under (ja_packages st) ns @ (if jv_key s = ns then [jv_path s] else [])"
  by (auto simp: jv_add_summary_def jv_key_def types_under_def files_under_def Let_def
      split: option.splits)

lemma foldl_jv_add_summary:
  "ja_files (foldl jv_add_summary st ss) = ja_files st @ ss \<and>
   types_under (ja_packages (foldl jv_add_summary st ss)) ns =
     types_under (ja_packages st) ns @
     concat (map (\<lambda>s. case jv_types s of None \<Rightarrow> [] | Some ts \<Rightarrow> ts)
       (filter (\<lambda>s. jv_key s = ns) ss)) \<and>
   files_under (ja_packages (foldl jv_add_summary st ss)) ns =
     files_under (ja_packages st) ns @ map jv_path (filter (\<lambda>s. jv_key s = ns) ss)"
proof (induction ss arbitrary: st)
  case Nil
  then show ?case by simp
next
  case (Cons s ss)
  show ?case
    using Cons [of "jv_add_summary st s"] by (simp add: jv_add_summary_state)
qed

lemma jv_aggregate_sources_eq:
  "jv_aggregate_sources str_of parse src_dirs =
     foldl jv_add_summary \<lparr>ja_packages = Map.empty, ja_files = []\<rparr>
       (map (jv_summary_of str_of parse) (scanned_files src_dirs))"
  by (simp add: jv_aggregate_sources_def foldl_jv_dir_step)

text \<open>The .NET aggregator with a file whose scan raises.\<close>

lemma cs_failed_file:
  assumes "''obj'' \<notin> set f" and "''bin'' \<notin> set f" and "parse f = Inl tb"
  shows "\<lparr>cs_path = str_of f, cs_error = Some tb, cs_types = [], cs_namespace = None\<rparr>
           \<in> set (ca_files (cs_aggregate_sources str_of parse (pre @ f # post)))"
    and "ss_file_count (cs_summarize_sources str_of parse (pre @ f # post)) =
         ss_file_count (cs_summarize_sources str_of parse (pre @ post)) + 1"
    and "types_under (ss_namespaces (cs_summarize_sources str_of parse (pre @ f # post))) ns =
         types_under (ss_namespaces (cs_summarize_sources str_of parse (pre @ post))) ns"
    and "str_of f \<in> set (files_under
           (ss_namespaces (cs_summarize_sources str_of parse (pre @ f # post))) ''(global)'')"
proof -
  let ?e = "\<lparr>cs_path = str_of f, cs_error = Some tb, cs_types = [], cs_namespace = None\<rparr>"
  let ?init = "\<lparr>ca_namespaces = Map.empty, ca_files = []\<rparr>"
  let ?keep = "\<lambda>cs. \<not> (''obj'' \<in> set cs \<or> ''bin'' \<in> set cs)"
  let ?S = "\<lambda>found. map (cs_summary_of str_of parse) (filter ?keep found)"
  have e: "cs_summary_of str_of parse f = ?e"
    using assms(3) by (simp add: cs_summary_of_def)
  have s: "?S (pre @ f # post) = ?S pre @ ?e # ?S post"
    using assms(1,2) e by simp
  have s': "?S (pre @ post) = ?S pre @ ?S post" by simp
  have k: "cs_key ?e = ''(global)''" by (simp add: cs_key_def)
  show "?e \<in> set (ca_files (cs_aggregate_sources str_of parse (pre @ f # post)))"
    unfolding cs_aggregate_sources_eq s
    using foldl_cs_add_summary [of ?init "?S pre @ ?e # ?S post"] by simp
  show "ss_file_count (cs_summarize_sources str_of parse (pre @ f # post)) =
         ss_file_count (cs_summarize_sources str_of parse (pre @ post)) + 1"
    unfolding cs_summarize_sources_def Let_def cs_aggregate_sources_eq s s'
    using foldl_cs_add_summary [of ?init "?S pre @ ?e # ?S post"]
      foldl_cs_add_summary [of ?init "?S pre @ ?S post"] by simp
  show "types_under (ss_namespaces (cs_summarize_sources str_of parse (pre @ f # post))) ns =
         types_under (ss_namespaces (cs_summarize_sources str_of parse (pre @ post))) ns"
    unfolding cs_summarize_sources_def Let_def cs_aggregate_sources_eq s s'
    using foldl_cs_add_summary [of ?init "?S pre @ ?e # ?S post" ns]
      foldl_cs_add_summary [of ?init "?S pre @ ?S post" ns] by simp
  show "str_of f \<in> set (files_under
           (ss_namespaces (cs_summarize_sources str_of parse (pre @ f # post))) ''(global)'')"
    unfolding cs_summarize_sources_def Let_def cs_aggregate_sources_eq s
    using foldl_cs_add_summary [of ?init "?S pre @ ?e # ?S post" "''(global)''"] k by simp
qed

lemma jv_failed_file:
  assumes "parse f = Inl tb"
  shows "\<lparr>jv_path = str_of f, jv_error = Some tb, jv_types = None, jv_package = None\<rparr>
           \<in> set (ja_files (jv_aggregate_sources str_of parse (d1 @ Some (pre @ f # post) # d2)))"
    and "ss_file_count (jv_summarize_sources str_of parse (d1 @ Some (pre @ f # post) # d2)) =
         ss_file_count (jv_summarize_sources str_of parse (d1 @ Some (pre @ post) # d2)) + 1"
    and "types_under (ss_namespaces
           (jv_summarize_sources str_of parse (d1 @ Some (pre @ f # post) # d2))) ns =
         types_under (ss_namespaces
           (jv_summarize_sources str_of parse (d1 @ Some (pre @ post) # d2))) ns"
    and "str_of f \<in> set (files_under (ss_namespaces
           (jv_summarize_sources str_of parse (d1 @ Some (pre @ f # post) # d2))) ''(default)'')"
proof -
  let ?e = "\<lparr>jv_path = str_of f, jv_error = Some tb, jv_types = None, jv_package = None\<rparr>"
  let ?init = "\<lparr>ja_packages = Map.empty, ja_files = []\<rparr>"
  let ?S = "\<lambda>fs. map (jv_summary_of str_of parse) fs"
  let ?a = "scanned_files d1 @ pre" and ?b = "post @ scanned_files d2"
  have e: "jv_summary_of str_of parse f = ?e"
    using assms by (simp add: jv_summary_of_def)
  have s: "?S (scanned_files (d1 @ Some (pre @ f # post) # d2)) = ?S ?a @ ?e # ?S ?b"
    using e by (simp add: scanned_files_def)
  have s': "?S (scanned_files (d1 @ Some (pre @ post) # d2)) = ?S ?a @ ?S ?b"
    by (simp add: scanned_files_def)
  have k: "jv_key ?e = ''(default)''" by (simp add: jv_key_def)
  show "?e \<in> set (ja_files (jv_aggregate_sources str_of parse (d1 @ Some (pre @ f # post) # d2)))"
    unfolding jv_aggregate_sources_eq s
    using foldl_jv_add_summary [of ?init "?S ?a @ ?e # ?S ?b"] by simp
  show "ss_file_count (jv_summarize_sources str_of parse (d1 @ Some (pre @ f # post) # d2)) =
         ss_file_count (jv_summarize_sources str_of parse (d1 @ Some (pre @ post) # d2)) + 1"
    unfolding jv_summarize_sources_def Let_def jv_aggregate_sources_eq s s'
    using foldl_jv_add_summary [of ?init "?S ?a @ ?e # ?S ?b"]
      foldl_jv_add_summary [of ?init "?S ?a @ ?S ?b"] by simp
  show "types_under (ss_namespaces
           (jv_summarize_sources str_of parse (d1 @ Some (pre @ f # post) # d2))) ns =
         types_under (ss_namespaces
           (jv_summarize_sources str_of parse (d1 @ Some (pre @ post) # d2))) ns"
    unfolding jv_summarize_sources_def Let_def jv_aggregate_sources_eq s s'
    using foldl_jv_add_summary [of ?init "?S ?a @ ?e # ?S ?b" ns]
      foldl_jv_add_summary [of ?init "?S ?a @ ?S ?b" ns] by simp
  show "str_of f \<in> set (files_under (ss_namespaces
           (jv_summarize_sources str_of parse (d1 @ Some (pre @ f # post) # d2))) ''(default)'')"
    unfolding jv_summarize_sources_def Let_def jv_aggregate_sources_eq s
    using foldl_jv_add_summary [of ?init "?S ?a @ ?e # ?S ?b" "''(default)''"] k by simp
qed

text \<open>
  What \<open>summarize_sources\<close> returns depends on a summary only through its path, its types
  and its namespace or package: the key \<open>error\<close> is never read.
\<close>

lemma foldl_cs_add_summary_cong:
  assumes "list_all2 (\<lambda>a b. cs_path a = cs_path b \<and> cs_types a = cs_types b \<and>
             cs_namespace a = cs_namespace b) ss ss'"
    and "ca_namespaces st = ca_namespaces st'"
    and "length (ca_files st) = length (ca_files st')"
  shows "ca_namespaces (foldl cs_add_summary st ss) = ca_namespaces (foldl cs_add_summary st' ss') \<and>
         length (ca_files (foldl cs_add_summary st ss)) =
         length (ca_files (foldl cs_add_summary st' ss'))"
  using assms
proof (induction ss ss' arbitrary: st st' rule: list_all2_induct)
  case Nil
  then show ?case by simp
next
  case (Cons a as b bs)
  have "ca_namespaces (cs_add_summary st a) = ca_namespaces (cs_add_summary st' b)"
    "length (ca_files (cs_add_summary st a)) = length (ca_files (cs_add_summary st' b))"
    using Cons.hyps(1) Cons.prems by (simp_all add: cs_add_summary_def Let_def)
  then show ?case using Cons.IH by simp
qed

lemma foldl_jv_add_summary_cong:
  assumes "list_all2 (\<lambda>a b. jv_path a = jv_path b \<and> jv_types a = jv_types b \<and>
             jv_package a = jv_package b) ss ss'"
    and "ja_packages st = ja_packages st'"
    and "length (ja_files st) = length (ja_files st')"
  shows "ja_packages (foldl jv_add_summary st ss) = ja_packages (foldl jv_add_summary st' ss') \<and>
         length (ja_files (foldl jv_add_summary st ss)) =
         length (ja_files (foldl jv_add_summary st' ss'))"
  using assms
proof (induction ss ss' arbitrary: st st' rule: list_all2_induct)
  case Nil
  then show ?case by simp
next
  case (Cons a as b bs)
  have "ja_packages (jv_add_summary st a) = ja_packages (jv_add_summary st' b)"
    "length (ja_files (jv_add_summary st a)) = length (ja_files (jv_add_summary st' b))"
    using Cons.hyps(1) Cons.prems by (simp_all add: jv_add_summary_def Let_def)
  then show ?case using Cons.IH by simp
qed

lemma cs_summarize_ignores_traceback:
  "cs_summarize_sources str_of (\<lambda>p. if p = f then Inl tb else parse p) found =
   cs_summarize_sources str_of (\<lambda>p. if p = f then Inl tb' else parse p) found"
proof -
  let ?keep = "\<lambda>cs. \<not> (''obj'' \<in> set cs \<or> ''bin'' \<in> set cs)"
  let ?P = "\<lambda>p. if p = f then Inl tb else parse p"
  let ?P' = "\<lambda>p. if p = f then Inl tb' else parse p"
  have "list_all2 (\<lambda>a b. cs_path a = cs_path b \<and> cs_types a = cs_types b \<and>
             cs_namespace a = cs_namespace b)
          (map (cs_summary_of str_of ?P) (filter ?keep found))
          (map (cs_summary_of str_of ?P') (filter ?keep found))"
    by (simp add: list_all2_map1 list_all2_map2 list_all2_same cs_summary_of_def)
  from foldl_cs_add_summary_cong [OF this, of "\<lparr>ca_namespaces = Map.empty, ca_files = []\<rparr>"
      "\<lparr>ca_namespaces = Map.empty, ca_files = []\<rparr>"]
  show ?thesis
    by (simp add: cs_summarize_sources_def cs_aggregate_sources_eq Let_def)
qed

lemma jv_summarize_ignores_traceback:
  "jv_summarize_sources str_of (\<lambda>p. if p = f then Inl tb else parse p) src_dirs =
   jv_summarize_sources str_of (\<lambda>p. if p = f then Inl tb' else parse p) src_dirs"
proof -
  let ?P = "\<lambda>p. if p = f then Inl tb else parse p"
  let ?P' = "\<lambda>p. if p = f then Inl tb' else parse p"
  have "list_all2 (\<lambda>a b. jv_path a = jv_path b \<and> jv_types a = jv_types b \<and>
             jv_package a = jv_package b)
          (map (jv_summary_of str_of ?P) (scanned_files src_dirs))
          (map (jv_summary_of str_of ?P') (scanned_files src_dirs))"
    by (simp add: list_all2_map1 list_all2_map2 list_all2_same jv_summary_of_def)
  from foldl_jv_add_summary_cong [OF this, of "\<lparr>ja_packages = Map.empty, ja_files = []\<rparr>"
      "\<lparr>ja_packages = Map.empty, ja_files = []\<rparr>"]
  show ?thesis
    by (simp add: jv_summarize_sources_def jv_aggregate_sources_eq Let_def)
qed

text \<open>
  Claim C9. When the scan of a source file raises, the aggregator is to record an error
  summary of that file with its path and a diagnostic. The file adds no types, the other
  files are scanned and the file is counted (\<open>cs_failed_file\<close>, \<open>jv_failed_file\<close>); but
  the error summary, built with the traceback, goes to the local list \<open>files\<close>, of which
  only the length is returned. What either \<open>summarize_sources\<close> returns is the same
  whatever the traceback; for a project whose one file cannot be read it is the path under
  \<open>(global)\<close>, respectively \<open>(default)\<close>, no types, and the count 1: no diagnostic.
\<close>

theorem failed_file_diagnostic_not_returned:
  "cs_summarize_sources str_of (\<lambda>p. if p = f then Inl tb else cs_parse p) found =
   cs_summarize_sources str_of (\<lambda>p. if p = f then Inl tb' else cs_parse p) found \<and>
   jv_summarize_sources str_of (\<lambda>p. if p = f then Inl tb else jv_parse p) src_dirs =
   jv_summarize_sources str_of (\<lambda>p. if p = f then Inl tb' else jv_parse p) src_dirs \<and>
   cs_summarize_sources concat (\<lambda>p. Inl ''PermissionError'') [[''/r/'', ''Bad.cs'']] =
     \<lparr>ss_namespaces = [''(global)'' \<mapsto> \<lparr>ns_files = [''/r/Bad.cs''], ns_types = []\<rparr>],
      ss_file_count = 1\<rparr> \<and>
   jv_summarize_sources concat (\<lambda>p. Inl ''PermissionError'') [Some [[''/r/'', ''Bad.java'']], None] =
     \<lparr>ss_namespaces = [''(default)'' \<mapsto> \<lparr>ns_files = [''/r/Bad.java''], ns_types = []\<rparr>],
      ss_file_count = 1\<rparr>"
proof -
  have "cs_summarize_sources concat (\<lambda>p. Inl ''PermissionError'') [[''/r/'', ''Bad.cs'']] =
     \<lparr>ss_namespaces = [''(global)'' \<mapsto> \<lparr>ns_files = [''/r/Bad.cs''], ns_types = []\<rparr>],
      ss_file_count = 1\<rparr>"
    by (simp add: cs_summarize_sources_def cs_aggregate_sources_def cs_file_step_def
        cs_add_summary_def cs_summary_of_def Let_def)
  moreover have "jv_summarize_sources concat (\<lambda>p. Inl ''PermissionError'')
       [Some [[''/r/'', ''Bad.java'']], None] =
     \<lparr>ss_namespaces = [''(default)'' \<mapsto> \<lparr>ns_files = [''/r/Bad.java''], ns_types = []\<rparr>],
      ss_file_count = 1\<rparr>"
    by (simp add: jv_summarize_sources_def jv_aggregate_sources_def jv_dir_step_def
        jv_add_summary_def jv_summary_of_def Let_def)
  ultimately show ?thesis
    using cs_summarize_ignores_traceback [of str_of f tb cs_parse found tb']
      jv_summarize_ignores_traceback [of str_of f tb jv_parse src_dirs tb']
    by simp
qed

end
